theory Spec2Isabelle
  imports Complex_Main
begin

section \<open>Data model\<close>

text \<open>
  An \<open>ImageData\<close> object of the canvas API: \<open>data\<close> is a \<open>Uint8ClampedArray\<close> of
  \<open>width * height * 4\<close> bytes in RGBA order. Bytes are integers between 0 and 255; the
  bound is part of the well-formedness predicate, and every store that can leave the
  range goes through \<open>toUint8Clamped\<close>.
\<close>

record imageData =
  data :: "int list"
  width :: nat
  height :: nat

definition wf_image :: "imageData \<Rightarrow> bool" where
  "wf_image img \<longleftrightarrow>
     length (data img) = width img * height img * 4 \<and>
     (\<forall>v \<in> set (data img). 0 \<le> v \<and> v \<le> 255)"

text \<open>
  A JavaScript number that may be \<open>NaN\<close>: \<open>None\<close> is \<open>NaN\<close>, \<open>Some v\<close> a finite value
  (floating point is idealised as the reals). Every comparison with \<open>NaN\<close> is false.
\<close>

type_synonym num = "real option"

definition num_gt :: "num \<Rightarrow> real \<Rightarrow> bool" where
  "num_gt a c = (case a of None \<Rightarrow> False | Some v \<Rightarrow> v > c)"

section \<open>Raster helpers shared by the pixel passes\<close>

text \<open>
  The byte offset \<open>(y * width + x) * 4\<close> of the pixel at column \<open>x\<close>, row \<open>y\<close>.
  Coordinates are integers, as neighbour offsets are subtracted from them; every pass
  that uses \<open>pixelIndex\<close> reads inside the buffer on a well-formed image of non-zero
  width and height, which every \<open>ImageData\<close> is.
\<close>

definition pixelIndex :: "nat \<Rightarrow> int \<Rightarrow> int \<Rightarrow> nat" where
  "pixelIndex w x y = nat ((y * int w + x) * 4)"

text \<open>
  The coordinates visited by
  \<open>for (y = m; y < height - m; y++) for (x = m; x < width - m; x++)\<close>, in that order.
\<close>

definition margin :: "nat \<Rightarrow> nat \<Rightarrow> nat \<Rightarrow> (int \<times> int) list" where
  "margin m w h =
     concat (map (\<lambda>y. map (\<lambda>x. (x, y)) [int m..int w - int m - 1]) [int m..int h - int m - 1])"

definition interior :: "nat \<Rightarrow> nat \<Rightarrow> (int \<times> int) list" where
  "interior w h = margin 1 w h"

text \<open>The values \<open>i\<close> takes in \<open>for (i = 0; i < n; i += 4)\<close>.\<close>

definition pixelOffsets :: "nat \<Rightarrow> nat list" where
  "pixelOffsets n = map (\<lambda>p. 4 * p) [0..<(n + 3) div 4]"

text \<open>The square window \<open>dy = -r .. r\<close>, \<open>dx = -r .. r\<close>, rows outermost.\<close>

definition window :: "int \<Rightarrow> (int \<times> int) list" where
  "window r = concat (map (\<lambda>dy. map (\<lambda>dx. (dx, dy)) [- r..r]) [- r..r])"

definition rgbToGray :: "int \<Rightarrow> int \<Rightarrow> int \<Rightarrow> real" where
  "rgbToGray r g b = 0.299 * real_of_int r + 0.587 * real_of_int g + 0.114 * real_of_int b"

text \<open>
  The Sobel operators. \<open>ImageAnalyzer\<close> and \<open>CanvasProcessor\<close> each carry their own
  copy of \<open>getSobelX\<close> and \<open>getSobelY\<close>; the copies have the same offsets, the same
  kernels and the same luminance formula, so one definition stands for both.
\<close>

definition positions :: "(int \<times> int) list" where
  "positions = [(-1, -1), (0, -1), (1, -1),
                (-1, 0), (0, 0), (1, 0),
                (-1, 1), (0, 1), (1, 1)]"

definition sobelSum :: "real list \<Rightarrow> int list \<Rightarrow> int \<Rightarrow> int \<Rightarrow> nat \<Rightarrow> real" where
  "sobelSum kern pixels x y w =
     sum_list (map (\<lambda>(k, (ox, oy)).
        let idx = pixelIndex w (x + ox) (y + oy);
            gray = rgbToGray (pixels ! idx) (pixels ! (idx + 1)) (pixels ! (idx + 2))
        in gray * k) (zip kern positions))"

definition getSobelX :: "int list \<Rightarrow> int \<Rightarrow> int \<Rightarrow> nat \<Rightarrow> real" where
  "getSobelX pixels x y w = sobelSum [-1, 0, 1, -2, 0, 2, -1, 0, 1] pixels x y w"

definition getSobelY :: "int list \<Rightarrow> int \<Rightarrow> int \<Rightarrow> nat \<Rightarrow> real" where
  "getSobelY pixels x y w = sobelSum [-1, -2, -1, 0, 0, 0, 1, 2, 1] pixels x y w"

text \<open>
  A store into a \<open>Uint8ClampedArray\<close>: \<open>NaN\<close> becomes 0, the value is clamped to
  0..255 and rounded to the nearest integer, a tie to the even one.
\<close>

definition roundHalfEven :: "real \<Rightarrow> int" where
  "roundHalfEven v =
     (let f = \<lfloor>v\<rfloor>; d = v - real_of_int f
      in if d < 1 / 2 then f
         else if d > 1 / 2 then f + 1
         else if even f then f else f + 1)"

definition toUint8Clamped :: "num \<Rightarrow> int" where
  "toUint8Clamped n =
     (case n of
        None \<Rightarrow> 0
      | Some v \<Rightarrow> if v \<le> 0 then 0 else if v \<ge> 255 then 255 else roundHalfEven v)"

text \<open>
  Arithmetic on numbers that may be \<open>NaN\<close>: a \<open>NaN\<close> operand gives \<open>NaN\<close>.
\<close>

definition num_add :: "num \<Rightarrow> num \<Rightarrow> num" where
  "num_add a b =
     (case a of None \<Rightarrow> None | Some u \<Rightarrow> (case b of None \<Rightarrow> None | Some v \<Rightarrow> Some (u + v)))"

definition num_mul :: "num \<Rightarrow> real \<Rightarrow> num" where
  "num_mul a c = (case a of None \<Rightarrow> None | Some u \<Rightarrow> Some (u * c))"

text \<open>
  A read \<open>a[i]\<close> of a typed array at an index that may lie outside it: \<open>undefined\<close>
  there, which arithmetic turns into \<open>NaN\<close>.
\<close>

definition readByte :: "int list \<Rightarrow> int \<Rightarrow> num" where
  "readByte d i =
     (if 0 \<le> i \<and> i < int (length d) then Some (real_of_int (d ! nat i)) else None)"

text \<open>
  The store \<open>data[k] = alphaSum / weightSum\<close>. A zero divisor would give an infinity
  (clamped to 255 or 0) or, for \<open>0 / 0\<close>, \<open>NaN\<close> (stored as 0).
\<close>

definition storeQuotient :: "num \<Rightarrow> real \<Rightarrow> int" where
  "storeQuotient alphaSum weightSum =
     (case alphaSum of
        None \<Rightarrow> 0
      | Some a \<Rightarrow>
          if weightSum = 0 then (if a > 0 then 255 else 0)
          else toUint8Clamped (Some (a / weightSum)))"

definition gaussWeight :: "int \<Rightarrow> int \<Rightarrow> real \<Rightarrow> real" where
  "gaussWeight dx dy sigma =
     (let distance = sqrt (real_of_int (dx * dx + dy * dy))
      in exp (- (distance * distance) / (2 * sigma * sigma)))"

text \<open>Two buffers of the same length that agree on every byte that is not an alpha byte.\<close>

definition sameColours :: "int list \<Rightarrow> int list \<Rightarrow> bool" where
  "sameColours d d' \<longleftrightarrow>
     length d = length d' \<and> (\<forall>j < length d'. j mod 4 \<noteq> 3 \<longrightarrow> d ! j = d' ! j)"

text \<open>Every element is a byte.\<close>

definition bytes :: "int list \<Rightarrow> bool" where
  "bytes d \<longleftrightarrow> (\<forall>v \<in> set d. 0 \<le> v \<and> v \<le> 255)"

text \<open>
  What an alpha pass may do to a buffer \<open>d0\<close>: keep its length and colour bytes, and
  leave bytes everywhere.
\<close>

definition alphaOnly :: "int list \<Rightarrow> int list \<Rightarrow> bool" where
  "alphaOnly d0 d \<longleftrightarrow> sameColours d d0 \<and> bytes d"

text \<open>
  The colour key \<open>`${r}-${g}-${b}`\<close> of three non-negative integers determines the
  three integers, so a key is modelled as the triple. The \<open>Map\<close> keeps its keys in
  insertion order: an association list.
\<close>

type_synonym colorKey = "int \<times> int \<times> int"

fun countColor :: "colorKey \<Rightarrow> (colorKey \<times> nat) list \<Rightarrow> (colorKey \<times> nat) list" where
  "countColor k [] = [(k, 1)]"
| "countColor k ((k', c) # m) =
     (if k = k' then (k', c + 1) # m else (k', c) # countColor k m)"

section \<open>ImageAnalyzer: skin-tone detection\<close>

definition isSkinColor :: "int \<Rightarrow> int \<Rightarrow> int \<Rightarrow> bool" where
  "isSkinColor r g b \<longleftrightarrow>
     (r > 95 \<and> g > 40 \<and> b > 20 \<and>
      r > g \<and> r > b \<and>
      \<bar>r - g\<bar> > 15 \<and>
      max (max r g) b - min (min r g) b > 15)
     \<or>
     (r > 220 \<and> g > 210 \<and> b > 170 \<and>
      \<bar>r - g\<bar> \<le> 15 \<and>
      r > b \<and> g > b)"

text \<open>The loop \<open>for (let i = 0; i < pixels.length; i += 4)\<close> of \<open>detectHuman\<close>.\<close>

function detectHuman_loop :: "int list \<Rightarrow> nat \<Rightarrow> nat \<Rightarrow> nat" where
  "detectHuman_loop pixels i skinPixels =
     (if i < length pixels
      then detectHuman_loop pixels (i + 4)
             (if isSkinColor (pixels ! i) (pixels ! (i + 1)) (pixels ! (i + 2))
              then skinPixels + 1 else skinPixels)
      else skinPixels)"
  by pat_completeness auto
termination
  by (relation "measure (\<lambda>(pixels, i, skinPixels). length pixels - i)") auto

declare detectHuman_loop.simps [simp del]

text \<open>
  \<open>skinRatio = skinPixels / totalPixels\<close> with \<open>totalPixels = pixels.length / 4\<close>; on an
  empty buffer the quotient is \<open>0 / 0 = NaN\<close> and \<open>NaN > 0.05\<close> is false.
\<close>

definition detectHuman :: "imageData \<Rightarrow> bool" where
  "detectHuman img =
     (let pixels = data img;
          skinPixels = detectHuman_loop pixels 0 0;
          totalPixels = real (length pixels) / 4
      in if totalPixels = 0 then False
         else real skinPixels / totalPixels > 0.05)"

section \<open>ImageAnalyzer: complexity score\<close>

























section \<open>BackgroundRemovalApp: tier recommendation\<close>

datatype mode = Fast | Balanced | Precise

record analysis =
  hasHuman :: bool
  complexity :: num
  colorVariance :: real
  edgeDensity :: num

definition getRecommendedMode :: "analysis \<Rightarrow> mode" where
  "getRecommendedMode a =
     (if hasHuman a \<and> num_gt (complexity a) 0.7 then Precise
      else if hasHuman a \<or> num_gt (complexity a) 0.4 then Balanced
      else Fast)"

section \<open>BackgroundRemovalApp: file intake\<close>

record jsfile =
  name :: string
  type :: string
  size :: nat

text \<open>
  The two warnings \<open>processFiles\<close> shows: the first for a file that is neither JPEG nor
  PNG, the second (carrying the file name) for a file above the size limit.
\<close>

datatype message = UnsupportedFormat | ExceedsLimit string

record app =
  currentFiles :: "jsfile list"
  isManualMode :: bool
  messages :: "message list"
  previewsShown :: bool
  processEnabled :: bool
  analysisRequested :: bool

text \<open>The callback given to \<open>files.filter\<close>, with the messages it shows threaded through.\<close>

definition fileFilter :: "jsfile \<Rightarrow> message list \<Rightarrow> bool \<times> message list" where
  "fileFilter f msgs =
     (let isValidType = (type f = ''image/jpeg'' \<or> type f = ''image/png'');
          isValidSize = (size f \<le> 10 * 1024 * 1024)
      in if \<not> isValidType then (False, msgs @ [UnsupportedFormat])
         else if \<not> isValidSize then (False, msgs @ [ExceedsLimit (name f)])
         else (True, msgs))"

fun filterFiles :: "jsfile list \<Rightarrow> message list \<Rightarrow> jsfile list \<times> message list" where
  "filterFiles [] msgs = ([], msgs)"
| "filterFiles (f # fs) msgs =
     (let (keep, msgs') = fileFilter f msgs;
          (rest, msgs'') = filterFiles fs msgs'
      in (if keep then f # rest else rest, msgs''))"

definition processFiles :: "app \<Rightarrow> jsfile list \<Rightarrow> app" where
  "processFiles st files =
     (let (validFiles, msgs) = filterFiles files (messages st)
      in if length validFiles = 0 then st\<lparr>messages := msgs\<rparr>
         else st\<lparr>currentFiles := validFiles, messages := msgs,
                 previewsShown := True, processEnabled := True,
                 analysisRequested := (\<not> isManualMode st)\<rparr>)"

text \<open>The acceptance condition as the specification words it.\<close>

definition accepted :: "jsfile \<Rightarrow> bool" where
  "accepted f \<longleftrightarrow>
     (type f = ''image/jpeg'' \<or> type f = ''image/png'') \<and> size f \<le> 10 * 1024 * 1024"

section \<open>CanvasProcessor: the fast segmenter\<close>

subsection \<open>Background colours from the border\<close>

definition strideFive :: "nat \<Rightarrow> int list" where
  "strideFive n = map (\<lambda>k. 5 * int k) [0..<(n + 4) div 5]"

definition samplePoints :: "nat \<Rightarrow> nat \<Rightarrow> (int \<times> int) list" where
  "samplePoints w h =
     concat (map (\<lambda>x. [(x, 0), (x, int h - 1)]) (strideFive w)) @
     concat (map (\<lambda>y. [(0, y), (int w - 1, y)]) (strideFive h))"

definition quantize16 :: "int list \<Rightarrow> nat \<Rightarrow> int \<times> int \<Rightarrow> colorKey" where
  "quantize16 d w = (\<lambda>(x, y).
     let index = pixelIndex w x y
     in ((d ! index) div 16 * 16, (d ! (index + 1)) div 16 * 16, (d ! (index + 2)) div 16 * 16))"

text \<open>
  \<open>sort((a, b) => b[1] - a[1])\<close> is a stable sort by descending count; \<open>sort_key\<close> is
  stable as well.
\<close>

definition detectBackgroundColors :: "imageData \<Rightarrow> colorKey list" where
  "detectBackgroundColors img =
     (let colorMap = fold (\<lambda>pt m. countColor (quantize16 (data img) (width img) pt) m)
                       (samplePoints (width img) (height img)) [];
          sortedColors = take 3 (sort_key (\<lambda>(k, c). - int c) colorMap)
      in map fst sortedColors)"

subsection \<open>Edge map\<close>

text \<open>
  As in \<open>calculateEdgeDensity\<close>, the test \<open>magnitude > 30\<close> is decided on the real-valued
  magnitude, which can differ from the double-precision one within rounding error of 30.
\<close>

definition createEdgeMap :: "imageData \<Rightarrow> int list" where
  "createEdgeMap img =
     fold (\<lambda>(x, y) edgeMap.
        let gx = getSobelX (data img) x y (width img);
            gy = getSobelY (data img) x y (width img);
            magnitude = sqrt (gx * gx + gy * gy)
        in edgeMap[nat (y * int (width img) + x) := (if magnitude > 30 then 255 else 0)])
       (interior (width img) (height img))
       (replicate (width img * height img) 0)"

definition inBounds :: "nat \<Rightarrow> nat \<Rightarrow> int \<Rightarrow> int \<Rightarrow> bool" where
  "inBounds w h nx ny \<longleftrightarrow> nx \<ge> 0 \<and> nx < int w \<and> ny \<ge> 0 \<and> ny < int h"

definition isNearEdge :: "int \<Rightarrow> int \<Rightarrow> int list \<Rightarrow> nat \<Rightarrow> nat \<Rightarrow> bool" where
  "isNearEdge x y edgeMap w h =
     list_ex (\<lambda>(dx, dy).
        let nx = x + dx; ny = y + dy
        in inBounds w h nx ny \<and> edgeMap ! nat (ny * int w + nx) > 0) (window 2)"

text \<open>The loop over the background colours returns at the first colour that is close.\<close>

definition isBackgroundPixel ::
  "int \<Rightarrow> int \<Rightarrow> int \<Rightarrow> colorKey list \<Rightarrow> int list \<Rightarrow> int \<Rightarrow> int \<Rightarrow> nat \<Rightarrow> nat \<Rightarrow> bool" where
  "isBackgroundPixel r g b backgroundColors edgeMap x y w h =
     list_ex (\<lambda>(br, bg, bb).
        let colorDistance = sqrt (real_of_int ((r - br)\<^sup>2 + (g - bg)\<^sup>2 + (b - bb)\<^sup>2));
            threshold = (if isNearEdge x y edgeMap w h then 40 else 60)
        in colorDistance < threshold) backgroundColors"

text \<open>\<open>minDistance\<close> starts at \<open>Infinity\<close>, here \<open>None\<close>.\<close>

definition getEdgeDistance :: "int \<Rightarrow> int \<Rightarrow> int list \<Rightarrow> nat \<Rightarrow> nat \<Rightarrow> real" where
  "getEdgeDistance x y edgeMap w h =
     (let minDistance =
        fold (\<lambda>(dx, dy) m.
           let nx = x + dx; ny = y + dy
           in if inBounds w h nx ny \<and> edgeMap ! nat (ny * int w + nx) > 0
              then (let distance = sqrt (real_of_int (dx * dx + dy * dy))
                    in case m of None \<Rightarrow> Some distance | Some v \<Rightarrow> Some (min v distance))
              else m) (window 5) None
      in case minDistance of None \<Rightarrow> 10 | Some v \<Rightarrow> v)"

subsection \<open>Noise removal\<close>

definition foregroundCount :: "int list \<Rightarrow> nat \<Rightarrow> int \<Rightarrow> int \<Rightarrow> nat" where
  "foregroundCount src w x y =
     length (filter (\<lambda>(dx, dy). src ! (pixelIndex w (x + dx) (y + dy) + 3) > 128) (window 1))"

definition erodeStep :: "int list \<Rightarrow> nat \<Rightarrow> int \<times> int \<Rightarrow> int list \<Rightarrow> int list" where
  "erodeStep originalData w = (\<lambda>(x, y) d.
     let index = pixelIndex w x y
     in if originalData ! (index + 3) > 128
        then (if foregroundCount originalData w x y < 5 then d[index + 3 := 0] else d)
        else d)"

definition dilateStep ::
  "int list \<Rightarrow> int list \<Rightarrow> nat \<Rightarrow> int \<times> int \<Rightarrow> int list \<Rightarrow> int list" where
  "dilateStep originalData erodedData w = (\<lambda>(x, y) d.
     let index = pixelIndex w x y
     in if erodedData ! (index + 3) = 0
        then (if foregroundCount erodedData w x y \<ge> 6
              then d[index := originalData ! index,
                     index + 1 := originalData ! (index + 1),
                     index + 2 := originalData ! (index + 2),
                     index + 3 := originalData ! (index + 3)]
              else d)
        else d)"

text \<open>The buffer after the first (erosion) loop of \<open>removeNoise\<close>.\<close>

definition erosion :: "imageData \<Rightarrow> int list" where
  "erosion img =
     fold (erodeStep (data img) (width img)) (interior (width img) (height img)) (data img)"

definition removeNoise :: "imageData \<Rightarrow> imageData" where
  "removeNoise img =
     (let originalData = data img;
          erodedData = erosion img
      in img\<lparr>data := fold (dilateStep originalData erodedData (width img))
                        (interior (width img) (height img)) erodedData\<rparr>)"

subsection \<open>Background removal\<close>

definition removeStep ::
  "imageData \<Rightarrow> colorKey list \<Rightarrow> int list \<Rightarrow> nat \<Rightarrow> int list \<Rightarrow> int list" where
  "removeStep img backgroundColors edgeMap i d =
     (let w = width img; h = height img;
          pixelIdx = i div 4;
          x = int (pixelIdx mod w);
          y = int (pixelIdx div w);
          r = d ! i; g = d ! (i + 1); b = d ! (i + 2)
      in if isBackgroundPixel r g b backgroundColors edgeMap x y w h
         then d[i + 3 := 0]
         else (let edgeDistance = getEdgeDistance x y edgeMap w h
               in if edgeDistance < 3
                  then d[i + 3 := toUint8Clamped
                         (Some (max 0 (real_of_int (d ! (i + 3)) - (50 * (3 - edgeDistance) / 3))))]
                  else d))"

definition removeBackground :: "imageData \<Rightarrow> imageData" where
  "removeBackground img =
     (let backgroundColors = detectBackgroundColors img;
          edgeMap = createEdgeMap img;
          d = fold (removeStep img backgroundColors edgeMap)
                (pixelOffsets (length (data img))) (data img)
      in removeNoise (img\<lparr>data := d\<rparr>))"

text \<open>
  The number of foreground pixels among the eight neighbours of a pixel, the centre not
  counted: the quantity the specification words the two passes with.
\<close>

definition neighbours8 :: "(int \<times> int) list" where
  "neighbours8 = [(-1, -1), (0, -1), (1, -1), (-1, 0), (1, 0), (-1, 1), (0, 1), (1, 1)]"

definition foregroundNeighbours :: "int list \<Rightarrow> nat \<Rightarrow> int \<Rightarrow> int \<Rightarrow> nat" where
  "foregroundNeighbours src w x y =
     length (filter (\<lambda>(dx, dy). src ! (pixelIndex w (x + dx) (y + dy) + 3) > 128) neighbours8)"

definition alphaAt :: "int list \<Rightarrow> nat \<Rightarrow> int \<Rightarrow> int \<Rightarrow> int" where
  "alphaAt d w x y = d ! (pixelIndex w x y + 3)"

text \<open>
  A 3 by 3 mask whose centre pixel is foreground and has exactly four foreground
  neighbours (the top row and the left neighbour).
\<close>

definition fourNeighbours :: imageData where
  "fourNeighbours =
     \<lparr>data = [10, 20, 30, 255,  10, 20, 30, 255,  10, 20, 30, 255,
               10, 20, 30, 255,  10, 20, 30, 255,  10, 20, 30, 0,
               10, 20, 30, 0,    10, 20, 30, 0,    10, 20, 30, 0],
      width = 3, height = 3\<rparr>"

text \<open>
  A 3 by 3 mask whose centre pixel is transparent and has eight foreground neighbours,
  and one whose centre pixel is foreground and has three foreground neighbours (the top
  row).
\<close>

definition ring3 :: imageData where
  "ring3 =
     \<lparr>data = [10, 20, 30, 255,  10, 20, 30, 255,  10, 20, 30, 255,
               10, 20, 30, 255,  10, 20, 30, 0,    10, 20, 30, 255,
               10, 20, 30, 255,  10, 20, 30, 255,  10, 20, 30, 255],
      width = 3, height = 3\<rparr>"

definition threeNeighbours :: imageData where
  "threeNeighbours =
     \<lparr>data = [10, 20, 30, 255,  10, 20, 30, 255,  10, 20, 30, 255,
               10, 20, 30, 0,    10, 20, 30, 255,  10, 20, 30, 0,
               10, 20, 30, 0,    10, 20, 30, 0,    10, 20, 30, 0],
      width = 3, height = 3\<rparr>"

section \<open>MediaPipeProcessor: post-processing of the balanced tier\<close>

definition medianStep :: "int list \<Rightarrow> nat \<Rightarrow> int \<times> int \<Rightarrow> int list \<Rightarrow> int list" where
  "medianStep originalData w = (\<lambda>(x, y) d.
     let index = pixelIndex w x y;
         alphaValues = map (\<lambda>(dx, dy). originalData ! (pixelIndex w (x + dx) (y + dy) + 3))
                         (window 1)
     in d[index + 3 := sort alphaValues ! 4])"

definition medianFilter :: "imageData \<Rightarrow> imageData" where
  "medianFilter img =
     img\<lparr>data := fold (medianStep (data img) (width img))
                     (interior (width img) (height img)) (data img)\<rparr>"

definition minStep :: "int list \<Rightarrow> nat \<Rightarrow> int \<times> int \<Rightarrow> int list \<Rightarrow> int list" where
  "minStep tempData w = (\<lambda>(x, y) d.
     let index = pixelIndex w x y;
         minAlpha = fold (\<lambda>(dx, dy) m. min m (tempData ! (pixelIndex w (x + dx) (y + dy) + 3)))
                      (window 1) 255
     in d[index + 3 := minAlpha])"

definition maxStep :: "int list \<Rightarrow> nat \<Rightarrow> int \<times> int \<Rightarrow> int list \<Rightarrow> int list" where
  "maxStep erodedData w = (\<lambda>(x, y) d.
     let index = pixelIndex w x y;
         maxAlpha = fold (\<lambda>(dx, dy) m. max m (erodedData ! (pixelIndex w (x + dx) (y + dy) + 3)))
                      (window 1) 0
     in d[index + 3 := maxAlpha])"

definition morphologicalOperations :: "imageData \<Rightarrow> imageData" where
  "morphologicalOperations img =
     (let tempData = data img;
          erodedData = fold (minStep tempData (width img))
                         (interior (width img) (height img)) (data img)
      in img\<lparr>data := fold (maxStep erodedData (width img))
                        (interior (width img) (height img)) erodedData\<rparr>)"

text \<open>The edge test of this class: the four direct neighbours, a jump above 100.\<close>

definition mp_isEdgePixel :: "int \<Rightarrow> int \<Rightarrow> int list \<Rightarrow> nat \<Rightarrow> nat \<Rightarrow> bool" where
  "mp_isEdgePixel x y d w h =
     (let centerAlpha = d ! (pixelIndex w x y + 3)
      in list_ex (\<lambda>(nx, ny).
           inBounds w h nx ny \<and> \<bar>centerAlpha - d ! (pixelIndex w nx ny + 3)\<bar> > 100)
           [(x - 1, y), (x + 1, y), (x, y - 1), (x, y + 1)])"

text \<open>
  The two accumulators \<open>(alphaSum, weightSum)\<close> of the inner loops of
  \<open>edgeFeathering\<close>, over the window of radius 2 with \<open>sigma = 1.0\<close>.
\<close>

definition featherSums :: "int list \<Rightarrow> nat \<Rightarrow> int \<Rightarrow> int \<Rightarrow> real \<times> real" where
  "featherSums originalData w x y =
     fold (\<lambda>(dx, dy) (alphaSum, weightSum).
        let weight = gaussWeight dx dy 1.0
        in (alphaSum + real_of_int (originalData ! (pixelIndex w (x + dx) (y + dy) + 3)) * weight,
            weightSum + weight))
       (window 2) (0, 0)"

definition featherStep :: "int list \<Rightarrow> nat \<Rightarrow> nat \<Rightarrow> int \<times> int \<Rightarrow> int list \<Rightarrow> int list" where
  "featherStep originalData w h = (\<lambda>(x, y) d.
     let index = pixelIndex w x y
     in if mp_isEdgePixel x y originalData w h
        then (let (alphaSum, weightSum) = featherSums originalData w x y
              in d[index + 3 := storeQuotient (Some alphaSum) weightSum])
        else d)"

definition edgeFeathering :: "imageData \<Rightarrow> imageData" where
  "edgeFeathering img =
     img\<lparr>data := fold (featherStep (data img) (width img) (height img))
                     (margin 2 (width img) (height img)) (data img)\<rparr>"

definition mp_postProcessSegmentation :: "imageData \<Rightarrow> imageData" where
  "mp_postProcessSegmentation img = edgeFeathering (morphologicalOperations (medianFilter img))"

section \<open>TensorFlowProcessor: post-processing of the precise tier\<close>

subsection \<open>Bilateral filter\<close>

definition bilateralSums :: "int list \<Rightarrow> nat \<Rightarrow> int \<Rightarrow> int \<Rightarrow> real \<times> real" where
  "bilateralSums originalData w x y =
     (let centerAlpha = originalData ! (pixelIndex w x y + 3)
      in fold (\<lambda>(dx, dy) (weightSum, alphaSum).
           let nAlpha = originalData ! (pixelIndex w (x + dx) (y + dy) + 3);
               spatialDistance = sqrt (real_of_int (dx * dx + dy * dy));
               rangeDistance = real_of_int \<bar>centerAlpha - nAlpha\<bar>;
               spatialWeight = exp (- (spatialDistance * spatialDistance) / (2 * 5.0 * 5.0));
               rangeWeight = exp (- (rangeDistance * rangeDistance) / (2 * 50.0 * 50.0));
               weight = spatialWeight * rangeWeight
           in (weightSum + weight, alphaSum + real_of_int nAlpha * weight))
          (window 5) (0, 0))"

definition bilateralStep :: "int list \<Rightarrow> nat \<Rightarrow> int \<times> int \<Rightarrow> int list \<Rightarrow> int list" where
  "bilateralStep originalData w = (\<lambda>(x, y) d.
     let centerIndex = pixelIndex w x y;
         (weightSum, alphaSum) = bilateralSums originalData w x y
     in d[centerIndex + 3 := storeQuotient (Some alphaSum) weightSum])"

definition bilateralFilter :: "imageData \<Rightarrow> imageData" where
  "bilateralFilter img =
     img\<lparr>data := fold (bilateralStep (data img) (width img))
                     (margin 5 (width img) (height img)) (data img)\<rparr>"

subsection \<open>Connected components\<close>

text \<open>
  \<open>visited\<close> is an array of \<open>width * height\<close> booleans, all false at first, read and
  written only as \<open>visited[index]\<close>: the set of the indices that hold true. The stack is
  a list whose head is the top; a component lists pixel numbers in the order they were
  reached.
\<close>

function floodFill_loop ::
  "int list \<Rightarrow> nat \<Rightarrow> nat \<Rightarrow> (int \<times> int) list \<Rightarrow> nat set \<Rightarrow> nat list \<Rightarrow> nat set \<times> nat list" where
  "floodFill_loop d w h [] visited component = (visited, component)"
| "floodFill_loop d w h ((x, y) # stack) visited component =
     (let index = nat (y * int w + x)
      in if x < 0 \<or> x \<ge> int w \<or> y < 0 \<or> y \<ge> int h \<or> index \<in> visited
         then floodFill_loop d w h stack visited component
         else if d ! (index * 4 + 3) \<le> 128
         then floodFill_loop d w h stack visited component
         else floodFill_loop d w h
                ((x, y + 1) # (x, y - 1) # (x + 1, y) # (x - 1, y) # stack)
                (insert index visited) (component @ [index]))"
  by pat_completeness auto

termination
proof (relation "measures [\<lambda>(d, w, h, stack, visited, component). card ({..<w * h} - visited),
                           \<lambda>(d, w, h, stack, visited, component). length stack]")
  show "wf (measures [\<lambda>(d, w, h, stack, visited, component). card ({..<w * h} - visited),
                      \<lambda>(d, w, h, stack, visited, component). length stack])"
    by simp
next
  fix d :: "int list" and w h :: nat and x y :: int and stack :: "(int \<times> int) list"
    and visited :: "nat set" and component :: "nat list" and index :: nat
  assume idx: "index = nat (y * int w + x)"
    and inb: "\<not> (x < 0 \<or> int w \<le> x \<or> y < 0 \<or> int h \<le> y \<or> index \<in> visited)"
  have "nat y + 1 \<le> h" "nat x < w" using inb by linarith+
  then have "nat y * w + nat x < h * w"
    using mult_le_mono1 [of "nat y + 1" h w] by simp
  moreover have "index = nat y * w + nat x"
    using inb idx by (simp add: nat_add_distrib nat_mult_distrib)
  ultimately have "index \<in> {..<w * h} - visited"
    using inb by (simp add: mult.commute)
  then have "card ({..<w * h} - visited - {index}) < card ({..<w * h} - visited)"
    by (intro card_Diff1_less) simp_all
  moreover have "{..<w * h} - insert index visited = {..<w * h} - visited - {index}"
    by auto
  ultimately show "((d, w, h, (x, y + 1) # (x, y - 1) # (x + 1, y) # (x - 1, y) # stack,
            insert index visited, component @ [index]),
           d, w, h, (x, y) # stack, visited, component)
          \<in> measures [\<lambda>(d, w, h, stack, visited, component). card ({..<w * h} - visited),
                       \<lambda>(d, w, h, stack, visited, component). length stack]"
    by simp
qed simp_all

declare floodFill_loop.simps [simp del]

definition floodFill ::
  "int list \<Rightarrow> nat set \<Rightarrow> int \<Rightarrow> int \<Rightarrow> nat \<Rightarrow> nat \<Rightarrow> nat set \<times> nat list" where
  "floodFill d visited startX startY w h = floodFill_loop d w h [(startX, startY)] visited []"

text \<open>The body of the scan \<open>for y ... for x ...\<close> that collects the components.\<close>

definition scanStep ::
  "int list \<Rightarrow> nat \<Rightarrow> nat \<Rightarrow> int \<times> int \<Rightarrow> nat set \<times> nat list list \<Rightarrow> nat set \<times> nat list list" where
  "scanStep d w h = (\<lambda>(x, y) (visited, components).
     let index = nat (y * int w + x)
     in if index \<notin> visited
        then (let pixelIdx = index * 4
              in if d ! (pixelIdx + 3) > 128
                 then (let (visited', component) = floodFill d visited x y w h
                       in if length component > 0
                          then (visited', components @ [component])
                          else (visited', components))
                 else (visited, components))
        else (visited, components))"

definition findComponents :: "imageData \<Rightarrow> nat list list" where
  "findComponents img =
     snd (fold (scanStep (data img) (width img) (height img))
            (margin 0 (width img) (height img)) ({}, []))"

definition minComponentSize :: "nat \<Rightarrow> nat \<Rightarrow> real" where
  "minComponentSize w h = max 50 (real (w * h) / 1000)"

definition clearComponent :: "nat list \<Rightarrow> int list \<Rightarrow> int list" where
  "clearComponent component d = fold (\<lambda>pixelIdx d. d[pixelIdx * 4 + 3 := 0]) component d"

definition connectedComponentAnalysis :: "imageData \<Rightarrow> imageData" where
  "connectedComponentAnalysis img =
     (let components = findComponents img;
          minSize = minComponentSize (width img) (height img)
      in img\<lparr>data := fold (\<lambda>component d.
                          if real (length component) < minSize
                          then clearComponent component d else d)
                        components (data img)\<rparr>)"

subsection \<open>Adaptive edge smoothing\<close>

text \<open>The edge test of this class: the eight neighbours, a jump above 50.\<close>

definition around :: "int \<Rightarrow> int \<Rightarrow> (int \<times> int) list" where
  "around x y = [(x - 1, y - 1), (x, y - 1), (x + 1, y - 1),
                 (x - 1, y), (x + 1, y),
                 (x - 1, y + 1), (x, y + 1), (x + 1, y + 1)]"

definition tf_isEdgePixel :: "int \<Rightarrow> int \<Rightarrow> int list \<Rightarrow> nat \<Rightarrow> nat \<Rightarrow> bool" where
  "tf_isEdgePixel x y d w h =
     (let centerAlpha = d ! (pixelIndex w x y + 3)
      in list_ex (\<lambda>(nx, ny).
           inBounds w h nx ny \<and> \<bar>centerAlpha - d ! (pixelIndex w nx ny + 3)\<bar> > 50)
           (around x y))"

definition calculateEdgeStrength :: "int \<Rightarrow> int \<Rightarrow> int list \<Rightarrow> nat \<Rightarrow> nat \<Rightarrow> int" where
  "calculateEdgeStrength x y d w h =
     (let centerAlpha = d ! (pixelIndex w x y + 3)
      in fold (\<lambda>(nx, ny) maxDiff.
           if inBounds w h nx ny
           then max maxDiff \<bar>centerAlpha - d ! (pixelIndex w nx ny + 3)\<bar>
           else maxDiff)
          (around x y) 0)"

text \<open>
  The accumulators \<open>(alphaSum, weightSum)\<close> of the inner loops of \<open>edgeOptimization\<close>.
  The window radius \<open>ceil(sigma * 2)\<close> can exceed the margin 2 of the outer loops, so
  the neighbour index \<open>((y + dy) * width + (x + dx)) * 4\<close> can fall outside the buffer:
  the read is then \<open>undefined\<close> and \<open>alphaSum\<close> becomes \<open>NaN\<close>.
\<close>

definition optimizeSums ::
  "int list \<Rightarrow> nat \<Rightarrow> int \<Rightarrow> int \<Rightarrow> real \<Rightarrow> int \<Rightarrow> num \<times> real" where
  "optimizeSums originalData w x y sigma radius =
     fold (\<lambda>(dx, dy) (alphaSum, weightSum).
        let weight = gaussWeight dx dy sigma;
            nIndex = ((y + dy) * int w + (x + dx)) * 4
        in (num_add alphaSum (num_mul (readByte originalData (nIndex + 3)) weight),
            weightSum + weight))
       (window radius) (Some 0, 0)"

definition edgeSigma :: "int \<Rightarrow> real" where
  "edgeSigma edgeStrength = max 0.5 (min 2.0 (real_of_int edgeStrength / 50))"

definition optimizeStep :: "int list \<Rightarrow> nat \<Rightarrow> nat \<Rightarrow> int \<times> int \<Rightarrow> int list \<Rightarrow> int list" where
  "optimizeStep originalData w h = (\<lambda>(x, y) d.
     let index = pixelIndex w x y
     in if tf_isEdgePixel x y originalData w h
        then (let edgeStrength = calculateEdgeStrength x y originalData w h;
                  sigma = edgeSigma edgeStrength;
                  radius = \<lceil>sigma * 2\<rceil>;
                  (alphaSum, weightSum) = optimizeSums originalData w x y sigma radius
              in d[index + 3 := storeQuotient alphaSum weightSum])
        else d)"

definition edgeOptimization :: "imageData \<Rightarrow> imageData" where
  "edgeOptimization img =
     img\<lparr>data := fold (optimizeStep (data img) (width img) (height img))
                     (margin 2 (width img) (height img)) (data img)\<rparr>"

definition tf_postProcessSegmentation :: "imageData \<Rightarrow> imageData" where
  "tf_postProcessSegmentation img =
     edgeOptimization (connectedComponentAnalysis (bilateralFilter img))"

text \<open>A 3 by 3 mask, fully opaque.\<close>

definition opaque3 :: imageData where
  "opaque3 =
     \<lparr>data = [10, 20, 30, 255,  10, 20, 30, 255,  10, 20, 30, 255,
               10, 20, 30, 255,  10, 20, 30, 255,  10, 20, 30, 255,
               10, 20, 30, 255,  10, 20, 30, 255,  10, 20, 30, 255],
      width = 3, height = 3\<rparr>"

text \<open>The same mask with every alpha byte cleared.\<close>

definition cleared3 :: imageData where
  "cleared3 =
     \<lparr>data = [10, 20, 30, 0,  10, 20, 30, 0,  10, 20, 30, 0,
               10, 20, 30, 0,  10, 20, 30, 0,  10, 20, 30, 0,
               10, 20, 30, 0,  10, 20, 30, 0,  10, 20, 30, 0],
      width = 3, height = 3\<rparr>"

text \<open>A 5 by 5 mask whose three left columns are opaque and two right columns transparent.\<close>

definition edge5 :: imageData where
  "edge5 =
     \<lparr>data = [10, 20, 30, 255,  10, 20, 30, 255,  10, 20, 30, 255,  10, 20, 30, 0,  10, 20, 30, 0,
               10, 20, 30, 255,  10, 20, 30, 255,  10, 20, 30, 255,  10, 20, 30, 0,  10, 20, 30, 0,
               10, 20, 30, 255,  10, 20, 30, 255,  10, 20, 30, 255,  10, 20, 30, 0,  10, 20, 30, 0,
               10, 20, 30, 255,  10, 20, 30, 255,  10, 20, 30, 255,  10, 20, 30, 0,  10, 20, 30, 0,
               10, 20, 30, 255,  10, 20, 30, 255,  10, 20, 30, 255,  10, 20, 30, 0,  10, 20, 30, 0],
      width = 5, height = 5\<rparr>"

section \<open>4-connected components of the foreground\<close>

text \<open>
  Pixel number \<open>p\<close> stands for column \<open>p mod width\<close>, row \<open>p div width\<close>. A pixel is
  foreground when its alpha is above 128; two pixels are 4-adjacent when they are one
  step apart in a row or in a column; the component of a pixel is what can be reached
  from it over adjacent foreground pixels.
\<close>

definition foreground :: "imageData \<Rightarrow> nat \<Rightarrow> bool" where
  "foreground img p \<longleftrightarrow> p < width img * height img \<and> data img ! (p * 4 + 3) > 128"

definition adjacent4 :: "nat \<Rightarrow> nat \<Rightarrow> nat \<Rightarrow> bool" where
  "adjacent4 w p q \<longleftrightarrow>
     (p div w = q div w \<and> (p mod w + 1 = q mod w \<or> q mod w + 1 = p mod w)) \<or>
     (p mod w = q mod w \<and> (p div w + 1 = q div w \<or> q div w + 1 = p div w))"

definition connection :: "imageData \<Rightarrow> (nat \<times> nat) set" where
  "connection img =
     {(p, q). foreground img p \<and> foreground img q \<and> adjacent4 (width img) p q}"

definition component :: "imageData \<Rightarrow> nat \<Rightarrow> nat set" where
  "component img p = (connection img)\<^sup>* `` {p}"

text \<open>The edges of a relation between nodes outside a set.\<close>

definition avoiding :: "(nat \<times> nat) set \<Rightarrow> nat set \<Rightarrow> (nat \<times> nat) set" where
  "avoiding E V = {(a, b). (a, b) \<in> E \<and> a \<notin> V \<and> b \<notin> V}"

text \<open>The pixel number of a cell, and the cells a stack holds that are foreground pixels.\<close>

definition cellIndex :: "nat \<Rightarrow> int \<times> int \<Rightarrow> nat" where
  "cellIndex w = (\<lambda>(x, y). nat (y * int w + x))"

definition fgCell :: "imageData \<Rightarrow> int \<times> int \<Rightarrow> bool" where
  "fgCell img = (\<lambda>(x, y).
     0 \<le> x \<and> x < int (width img) \<and> 0 \<le> y \<and> y < int (height img) \<and>
     data img ! (nat (y * int (width img) + x) * 4 + 3) > 128)"

definition seeds :: "imageData \<Rightarrow> (int \<times> int) list \<Rightarrow> nat set" where
  "seeds img stack = cellIndex (width img) ` {c \<in> set stack. fgCell img c}"

text \<open>
  What holds of the visited set and of the components collected so far, between two
  steps of the scan: no connection leaves the visited set, the visited set is the union
  of the components, and each of them lists, without repetition, exactly the component
  of each of its pixels.
\<close>

definition unionOfComponents :: "imageData \<Rightarrow> nat set \<Rightarrow> bool" where
  "unionOfComponents img V \<longleftrightarrow> (\<forall>(a, b) \<in> connection img. a \<in> V \<longleftrightarrow> b \<in> V)"

definition scanInv :: "imageData \<Rightarrow> nat set \<times> nat list list \<Rightarrow> bool" where
  "scanInv img = (\<lambda>(V, components).
     unionOfComponents img V \<and>
     V = \<Union> (set ` set components) \<and>
     (\<forall>C \<in> set components. distinct C \<and>
        (\<forall>p \<in> set C. foreground img p \<and> set C = component img p)))"

text \<open>A 2 by 1 mask: one foreground pixel beside one background pixel.\<close>

definition speck :: imageData where
  "speck = \<lparr>data = [10, 20, 30, 200,  10, 20, 30, 0], width = 2, height = 1\<rparr>"

section \<open>The three processors and their fallback chain\<close>

subsection \<open>Promises\<close>

text \<open>
  What awaiting a promise can give: a value, a thrown error, or nothing at all when the
  promise never settles. \<open>andThen\<close> is a sequence of two awaits, \<open>catchError\<close> a
  \<open>try ... catch\<close> around awaited code, \<open>withTimeout\<close> the race against a
  \<open>setTimeout\<close> that rejects.
\<close>

datatype failure =
    ScriptLoadFailed | ModelLoadFailed | InitTimeout | SegmentationTimeout
  | ImageLoadFailed | NoPersonDetected | InferenceFailed | ProcessingFailed

datatype 'a promise = Resolves 'a | Rejects failure | Pending

definition andThen :: "'a promise \<Rightarrow> ('a \<Rightarrow> 'b promise) \<Rightarrow> 'b promise" where
  "andThen p f = (case p of Resolves v \<Rightarrow> f v | Rejects e \<Rightarrow> Rejects e | Pending \<Rightarrow> Pending)"

definition catchError :: "'a promise \<Rightarrow> (failure \<Rightarrow> 'a promise) \<Rightarrow> 'a promise" where
  "catchError p handler =
     (case p of Resolves v \<Rightarrow> Resolves v | Rejects e \<Rightarrow> handler e | Pending \<Rightarrow> Pending)"

definition withTimeout :: "failure \<Rightarrow> 'a promise \<Rightarrow> 'a promise" where
  "withTimeout e p =
     (case p of Resolves v \<Rightarrow> Resolves v | Rejects e' \<Rightarrow> Rejects e' | Pending \<Rightarrow> Rejects e)"

text \<open>
  What lies outside the processors, for one request: the decoding of the file, the
  loading of the two libraries and models, and the answers of the two models.
  \<open>tfSegment\<close> gives the mask of the first segmentation, or \<open>None\<close> when the list of
  segmentations is empty; \<open>mpSegment\<close> gives the RGBA bytes of the returned mask drawn
  at the size of the image.
\<close>

record world =
  imageOf :: "jsfile \<Rightarrow> imageData promise"
  tfScript :: "unit promise"
  tfModel :: "unit promise"
  tfSegment :: "imageData \<Rightarrow> real list option promise"
  mpScript :: "unit promise"
  mpInit :: "unit promise"
  mpSegment :: "imageData \<Rightarrow> int list promise"

subsection \<open>CanvasProcessor.process\<close>

definition canvas_process :: "world \<Rightarrow> jsfile \<Rightarrow> imageData promise" where
  "canvas_process wd f =
     catchError
       (andThen (imageOf wd f) (\<lambda>img. Resolves (removeBackground img)))
       (\<lambda>error. Rejects ProcessingFailed)"

subsection \<open>MediaPipeProcessor.process\<close>

definition calculateEdgeSoftening :: "nat \<Rightarrow> int list \<Rightarrow> nat \<Rightarrow> nat \<Rightarrow> real" where
  "calculateEdgeSoftening pixelIdx maskData w h =
     (let i = pixelIdx div 4;
          x = int (i mod w);
          y = int (i div w);
          inside = filter (\<lambda>(dx, dy). inBounds w h (x + dx) (y + dy)) (window 2);
          totalCount = length inside;
          foregroundCount =
            length (filter (\<lambda>(dx, dy). maskData ! pixelIndex w (x + dx) (y + dy) \<ge> 128) inside);
          ratio = real foregroundCount / real totalCount
      in if ratio > 0.8 then 1.0
         else if ratio > 0.6 then 0.8
         else if ratio > 0.4 then 0.5
         else if ratio > 0.2 then 0.2
         else 0.0)"

definition mp_maskStep :: "int list \<Rightarrow> nat \<Rightarrow> nat \<Rightarrow> nat \<Rightarrow> int list \<Rightarrow> int list" where
  "mp_maskStep maskData w h i d =
     (let maskValue = maskData ! i
      in if maskValue < 128 then d[i + 3 := 0]
         else (let alpha = calculateEdgeSoftening i maskData w h
               in d[i + 3 := toUint8Clamped (Some (min 255 (real_of_int (d ! (i + 3)) * alpha)))]))"

definition mp_applySegmentation :: "imageData \<Rightarrow> int list \<Rightarrow> imageData" where
  "mp_applySegmentation img maskData =
     mp_postProcessSegmentation
       (img\<lparr>data := fold (mp_maskStep maskData (width img) (height img))
                          (pixelOffsets (length (data img))) (data img)\<rparr>)"

text \<open>
  \<open>ensureLoaded\<close> of a processor that is not loaded yet: the script, then the first
  result of a test image, awaited for at most 5 seconds. The fallback always creates a
  new processor, so it is never loaded.
\<close>

definition mp_ensureLoaded :: "world \<Rightarrow> unit promise" where
  "mp_ensureLoaded wd = andThen (mpScript wd) (\<lambda>_. withTimeout InitTimeout (mpInit wd))"

definition performSegmentation :: "world \<Rightarrow> imageData \<Rightarrow> int list promise" where
  "performSegmentation wd img = withTimeout SegmentationTimeout (mpSegment wd img)"

definition mp_process :: "world \<Rightarrow> jsfile \<Rightarrow> imageData promise" where
  "mp_process wd f =
     catchError
       (andThen (mp_ensureLoaded wd) (\<lambda>_.
        andThen (imageOf wd f) (\<lambda>img.
        andThen (performSegmentation wd img) (\<lambda>segmentationResult.
        Resolves (mp_applySegmentation img segmentationResult)))))
       (\<lambda>error. canvas_process wd f)"

subsection \<open>TensorFlowProcessor.process\<close>

definition calculateSmoothAlpha :: "real \<Rightarrow> nat \<Rightarrow> real list \<Rightarrow> nat \<Rightarrow> nat \<Rightarrow> real" where
  "calculateSmoothAlpha maskValue pixelIdx maskData w h =
     (let x = int (pixelIdx mod w);
          y = int (pixelIdx div w);
          inside = filter (\<lambda>(dx, dy). inBounds w h (x + dx) (y + dy)) (window 2);
          neighborSum =
            sum_list (map (\<lambda>(dx, dy). maskData ! nat ((y + dy) * int w + (x + dx))) inside);
          neighborCount = length inside;
          avgNeighborValue = neighborSum / real neighborCount;
          smoothValue = maskValue * 0.6 + avgNeighborValue * 0.4
      in max 0 (min 1 smoothValue))"

definition tf_maskStep :: "real list \<Rightarrow> nat \<Rightarrow> nat \<Rightarrow> nat \<Rightarrow> int list \<Rightarrow> int list" where
  "tf_maskStep maskData w h i d =
     (let pixelIdx = i div 4;
          maskValue = maskData ! pixelIdx
      in if maskValue < 0.5 then d[i + 3 := 0]
         else (let alpha = calculateSmoothAlpha maskValue pixelIdx maskData w h
               in d[i + 3 := toUint8Clamped (Some (min 255 (real_of_int (d ! (i + 3)) * alpha)))]))"

definition tf_applySegmentation :: "imageData \<Rightarrow> real list \<Rightarrow> imageData" where
  "tf_applySegmentation img maskData =
     tf_postProcessSegmentation
       (img\<lparr>data := fold (tf_maskStep maskData (width img) (height img))
                          (pixelOffsets (length (data img))) (data img)\<rparr>)"

text \<open>
  \<open>ensureLoaded\<close> with the processor's \<open>isLoaded\<close> flag; \<open>performInference\<close> for the
  model type \<open>body-segmentation\<close>, the one the constructor sets and nothing changes.
  Neither awaits under a timer.
\<close>

definition tf_ensureLoaded :: "world \<Rightarrow> bool \<Rightarrow> unit promise" where
  "tf_ensureLoaded wd isLoaded =
     (if isLoaded then Resolves () else andThen (tfScript wd) (\<lambda>_. tfModel wd))"

definition performInference :: "world \<Rightarrow> imageData \<Rightarrow> real list promise" where
  "performInference wd img =
     andThen (tfSegment wd img) (\<lambda>segmentation.
       case segmentation of Some maskData \<Rightarrow> Resolves maskData | None \<Rightarrow> Rejects NoPersonDetected)"

definition tf_process :: "world \<Rightarrow> bool \<Rightarrow> jsfile \<Rightarrow> imageData promise" where
  "tf_process wd isLoaded f =
     catchError
       (andThen (tf_ensureLoaded wd isLoaded) (\<lambda>_.
        andThen (imageOf wd f) (\<lambda>img.
        andThen (performInference wd img) (\<lambda>segmentation.
        Resolves (tf_applySegmentation img segmentation)))))
       (\<lambda>error. mp_process wd f)"

text \<open>
  A request whose image decodes and whose libraries and models load, but whose
  precise-tier inference never answers; the balanced-tier model never answers either.
\<close>

definition silentWorld :: world where
  "silentWorld =
     \<lparr>imageOf = (\<lambda>f. Resolves opaque3),
      tfScript = Resolves (), tfModel = Resolves (),
      tfSegment = (\<lambda>img. Pending),
      mpScript = Resolves (), mpInit = Resolves (),
      mpSegment = (\<lambda>img. Pending)\<rparr>"

definition photo :: jsfile where
  "photo = \<lparr>name = ''photo.png'', type = ''image/png'', size = 1024\<rparr>"

section \<open>Tier recommendation policy\<close>

text \<open>
  Claim C5. The recommendation is a function of \<open>hasHuman\<close> and \<open>complexity\<close> alone:
  precise exactly when a human was detected and the complexity is above 0.7; otherwise
  balanced exactly when a human was detected or the complexity is above 0.4; otherwise
  fast. The three sample calls of the specification give precise, fast and balanced.
\<close>

theorem getRecommendedMode_policy:
  "(getRecommendedMode a = Precise \<longleftrightarrow> hasHuman a \<and> num_gt (complexity a) 0.7) \<and>
   (getRecommendedMode a = Balanced \<longleftrightarrow>
      \<not> (hasHuman a \<and> num_gt (complexity a) 0.7) \<and>
      (hasHuman a \<or> num_gt (complexity a) 0.4)) \<and>
   (getRecommendedMode a = Fast \<longleftrightarrow>
      \<not> (hasHuman a \<and> num_gt (complexity a) 0.7) \<and>
      \<not> (hasHuman a \<or> num_gt (complexity a) 0.4)) \<and>
   (hasHuman a = hasHuman a' \<and> complexity a = complexity a' \<longrightarrow>
      getRecommendedMode a = getRecommendedMode a') \<and>
   getRecommendedMode \<lparr>hasHuman = True, complexity = Some 0.9,
      colorVariance = cv, edgeDensity = ed\<rparr> = Precise \<and>
   getRecommendedMode \<lparr>hasHuman = False, complexity = Some 0.1,
      colorVariance = cv, edgeDensity = ed\<rparr> = Fast \<and>
   getRecommendedMode \<lparr>hasHuman = False, complexity = Some 0.5,
      colorVariance = cv, edgeDensity = ed\<rparr> = Balanced"
  by (simp add: getRecommendedMode_def num_gt_def)

theorem getRecommendedMode_policy_witness:
  "hasHuman \<lparr>hasHuman = True, complexity = None, colorVariance = 0, edgeDensity = None\<rparr> =
     hasHuman \<lparr>hasHuman = True, complexity = None, colorVariance = 1, edgeDensity = Some 0\<rparr> \<and>
   complexity \<lparr>hasHuman = True, complexity = None, colorVariance = 0, edgeDensity = None\<rparr> =
     complexity \<lparr>hasHuman = True, complexity = None, colorVariance = 1, edgeDensity = Some 0\<rparr> \<and>
   getRecommendedMode
     \<lparr>hasHuman = True, complexity = None, colorVariance = 0, edgeDensity = None\<rparr> =
   getRecommendedMode
     \<lparr>hasHuman = True, complexity = None, colorVariance = 1, edgeDensity = Some 0\<rparr>"
proof -
  let ?a = "\<lparr>hasHuman = True, complexity = None, colorVariance = 0, edgeDensity = None\<rparr>"
  let ?a' = "\<lparr>hasHuman = True, complexity = None, colorVariance = 1, edgeDensity = Some 0\<rparr>"
  have h: "hasHuman ?a = hasHuman ?a' \<and> complexity ?a = complexity ?a'"
    by simp
  have "hasHuman ?a = hasHuman ?a' \<and> complexity ?a = complexity ?a' \<longrightarrow>
        getRecommendedMode ?a = getRecommendedMode ?a'"
    using getRecommendedMode_policy [of ?a ?a'] by blast
  with h show ?thesis by blast
qed

section \<open>Skin-ratio classifier on mid-gray images\<close>

lemma detectHuman_loop_gray:
  assumes len: "length pixels = 4 * n"
    and gray: "\<forall>p<n. pixels ! (4 * p) = 128 \<and> pixels ! (4 * p + 1) = 128 \<and>
                 pixels ! (4 * p + 2) = 128"
  shows "k \<le> n \<Longrightarrow> detectHuman_loop pixels (4 * k) s = s"
proof (induction "n - k" arbitrary: k s)
  case 0
  then have "\<not> 4 * k < length pixels" using len by simp
  then show ?case by (subst detectHuman_loop.simps) simp
next
  case (Suc d)
  then have lt: "k < n" by simp
  then have inb: "4 * k < length pixels" using len by simp
  have px: "pixels ! (4 * k) = 128" "pixels ! (4 * k + 1) = 128" "pixels ! (4 * k + 2) = 128"
    using gray lt by auto
  have skin: "\<not> isSkinColor (pixels ! (4 * k)) (pixels ! (4 * k + 1)) (pixels ! (4 * k + 2))"
    unfolding px by (simp add: isSkinColor_def)
  have "detectHuman_loop pixels (4 * k) s = detectHuman_loop pixels (4 * k + 4) s"
    by (subst detectHuman_loop.simps) (simp only: inb skin if_True if_False)
  then have step: "detectHuman_loop pixels (4 * k) s = detectHuman_loop pixels (4 * Suc k) s"
    by (simp add: ac_simps)
  have "d = n - Suc k" "Suc k \<le> n" using Suc.hyps(2) lt by simp_all
  then have "detectHuman_loop pixels (4 * Suc k) s = s" by (rule Suc.hyps(1))
  with step show ?case by simp
qed

text \<open>
  Claim C8. On a well-formed image all of whose pixels have the colour (128, 128, 128),
  whatever their alpha, the classifier reports no human: the colour satisfies neither
  skin rule, so no pixel is counted and the ratio is not above 0.05.
\<close>

theorem detectHuman_midgray:
  assumes "wf_image img"
    and "\<forall>p < width img * height img.
           data img ! (4 * p) = 128 \<and> data img ! (4 * p + 1) = 128 \<and>
           data img ! (4 * p + 2) = 128"
  shows "\<not> isSkinColor 128 128 128 \<and>
         detectHuman_loop (data img) 0 0 = 0 \<and>
         detectHuman img = False"
proof -
  have len: "length (data img) = 4 * (width img * height img)"
    using assms(1) by (simp add: wf_image_def)
  have "detectHuman_loop (data img) (4 * 0) 0 = 0"
    using len assms(2) by (rule detectHuman_loop_gray) simp
  then have cnt: "detectHuman_loop (data img) 0 0 = 0" by simp
  show ?thesis
    by (simp add: cnt detectHuman_def Let_def isSkinColor_def)
qed

theorem detectHuman_midgray_witness:
  "wf_image \<lparr>data = [128, 128, 128, 255, 128, 128, 128, 7], width = 2, height = 1\<rparr> \<and>
   detectHuman \<lparr>data = [128, 128, 128, 255, 128, 128, 128, 7], width = 2, height = 1\<rparr> = False"
proof -
  let ?img = "\<lparr>data = [128, 128, 128, 255, 128, 128, 128, 7], width = 2, height = 1\<rparr>"
  have wf: "wf_image ?img" by (simp add: wf_image_def)
  have gray: "\<forall>p < width ?img * height ?img.
           data ?img ! (4 * p) = 128 \<and> data ?img ! (4 * p + 1) = 128 \<and>
           data ?img ! (4 * p + 2) = 128"
    by (simp add: less_Suc_eq numeral_2_eq_2)
  from detectHuman_midgray [OF wf gray] wf show ?thesis by blast
qed

section \<open>Intake filter\<close>

lemma filterFiles_fst: "fst (filterFiles files msgs) = filter accepted files"
  by (induction files arbitrary: msgs)
     (auto simp: fileFilter_def accepted_def Let_def case_prod_beta)

text \<open>
  Claim C9. The intake filter keeps a file exactly when its type is image/jpeg or
  image/png and its size is at most 10 * 1024 * 1024 bytes. The files kept are the only
  ones handed on (they become \<open>currentFiles\<close>, before anything is decoded), in their
  order, and a rejected file in a batch changes nothing for the others: the batch with
  the rejected file gives the same files as the batch without it.
\<close>

theorem processFiles_intake:
  "fst (filterFiles files msgs) = filter accepted files \<and>
   (\<forall>f \<in> set files. f \<in> set (fst (filterFiles files msgs)) \<longleftrightarrow>
      (type f = ''image/jpeg'' \<or> type f = ''image/png'') \<and> size f \<le> 10 * 1024 * 1024) \<and>
   (filter accepted files \<noteq> [] \<longrightarrow>
      currentFiles (processFiles st files) = filter accepted files) \<and>
   (filter accepted files = [] \<longrightarrow>
      currentFiles (processFiles st files) = currentFiles st) \<and>
   (\<not> accepted bad \<longrightarrow>
      fst (filterFiles (xs @ bad # ys) msgs) = fst (filterFiles (xs @ ys) msgs))"
proof -
  have cur: "currentFiles (processFiles st files) =
      (if filter accepted files = [] then currentFiles st else filter accepted files)"
    using filterFiles_fst [of files "messages st"]
    by (auto simp: processFiles_def split: prod.splits)
  show ?thesis
    by (auto simp: filterFiles_fst cur accepted_def)
qed

theorem processFiles_intake_witness:
  "\<not> accepted \<lparr>name = ''a.gif'', type = ''image/gif'', size = 10\<rparr> \<and>
   accepted \<lparr>name = ''b.png'', type = ''image/png'', size = 10485760\<rparr> \<and>
   currentFiles (processFiles
     \<lparr>currentFiles = [], isManualMode = False, messages = [], previewsShown = False,
        processEnabled = False, analysisRequested = False\<rparr>
     [\<lparr>name = ''a.gif'', type = ''image/gif'', size = 10\<rparr>,
      \<lparr>name = ''b.png'', type = ''image/png'', size = 10485760\<rparr>]) =
   [\<lparr>name = ''b.png'', type = ''image/png'', size = 10485760\<rparr>]"
proof -
  let ?bad = "\<lparr>name = ''a.gif'', type = ''image/gif'', size = 10\<rparr>"
  let ?ok = "\<lparr>name = ''b.png'', type = ''image/png'', size = 10485760\<rparr>"
  let ?st = "\<lparr>currentFiles = [], isManualMode = False, messages = [], previewsShown = False,
        processEnabled = False, analysisRequested = False\<rparr>"
  have a: "\<not> accepted ?bad" "accepted ?ok" by (simp_all add: accepted_def)
  then have ne: "filter accepted [?bad, ?ok] \<noteq> []" by simp
  have "filter accepted [?bad, ?ok] \<noteq> [] \<longrightarrow>
      currentFiles (processFiles ?st [?bad, ?ok]) = filter accepted [?bad, ?ok]"
    using processFiles_intake [of "[?bad, ?ok]" "[]" ?st] by blast
  with ne a show ?thesis by simp
qed

section \<open>Index arithmetic and pointwise passes\<close>

lemma margin_mem:
  "(x, y) \<in> set (margin m w h) \<longleftrightarrow>
     int m \<le> x \<and> x \<le> int w - int m - 1 \<and> int m \<le> y \<and> y \<le> int h - int m - 1"
  by (force simp: margin_def)

lemma pixelIndex_nat:
  "0 \<le> x \<Longrightarrow> 0 \<le> y \<Longrightarrow> pixelIndex w x y = 4 * (nat y * w + nat x)"
  by (simp add: pixelIndex_def nat_add_distrib nat_mult_distrib)

lemma pixelIndex_bound:
  assumes "0 \<le> x" "x < int w" "0 \<le> y" "y < int h" "k < 4"
  shows "pixelIndex w x y + k < w * h * 4"
proof -
  have "nat y * w + nat x < h * w"
  proof -
    have "nat y + 1 \<le> h" using assms by simp
    then have "(nat y + 1) * w \<le> h * w" by (rule mult_le_mono1)
    moreover have "nat x < w" using assms by simp
    ultimately show ?thesis by simp
  qed
  then show ?thesis using assms by (simp add: pixelIndex_nat mult.commute)
qed

lemma four_split:
  fixes p q k k' :: nat
  shows "4 * p + k = 4 * q + k' \<Longrightarrow> k < 4 \<Longrightarrow> k' < 4 \<Longrightarrow> p = q \<and> k = k'"
  by presburger

lemma pixelIndex_inj:
  assumes "0 \<le> x" "x < int w" "0 \<le> y" "0 \<le> x'" "x' < int w" "0 \<le> y'"
    and "k < 4" "k' < 4"
    and eq: "pixelIndex w x y + k = pixelIndex w x' y' + k'"
  shows "x = x' \<and> y = y' \<and> k = k'"
proof -
  let ?p = "nat y * w + nat x" and ?q = "nat y' * w + nat x'"
  have e: "4 * ?p + k = 4 * ?q + k'"
    using eq assms by (simp add: pixelIndex_nat)
  have pq: "?p = ?q" and kk: "k = k'" using four_split [OF e assms(7,8)] by simp_all
  have "?p mod w = ?q mod w" "?p div w = ?q div w" using pq by simp_all
  then have "nat x = nat x'" "nat y = nat y'" using assms by simp_all
  with assms(1,3,4,6) kk show ?thesis by (simp add: nat_eq_iff)
qed

lemma fold_untouched:
  assumes "\<And>c d. c \<in> set cs \<Longrightarrow> step c d ! j = d ! j"
  shows "fold step cs d ! j = d ! j"
  using assms by (induction cs arbitrary: d) simp_all

lemma fold_length:
  assumes "\<And>c d. c \<in> set cs \<Longrightarrow> length (step c d) = length d"
  shows "length (fold step cs d) = length d"
  using assms by (induction cs arbitrary: d) simp_all

lemma fold_touched:
  assumes "c \<in> set cs"
    and "\<And>c d. c \<in> set cs \<Longrightarrow> length (step c d) = length d"
    and "\<And>d. length d = n \<Longrightarrow> step c d ! j = v"
    and "\<And>c' d. c' \<in> set cs \<Longrightarrow> c' \<noteq> c \<Longrightarrow> step c' d ! j = d ! j"
  shows "length d = n \<Longrightarrow> fold step cs d ! j = v"
  using assms
proof (induction cs arbitrary: d rule: rev_induct)
  case Nil
  then show ?case by simp
next
  case (snoc a cs)
  have len: "length (fold step cs d) = n"
    using snoc.prems by (simp add: fold_length)
  show ?case
  proof (cases "a = c")
    case True
    then show ?thesis using snoc.prems(4) len by simp
  next
    case False
    then have "c \<in> set cs" using snoc.prems by simp
    then have "fold step cs d ! j = v"
      using snoc.prems by (intro snoc.IH) simp_all
    then show ?thesis using False snoc.prems(5) by simp
  qed
qed

lemma pixelIndex_mod4: "pixelIndex w x y mod 4 = 0"
proof -
  define z where "z = y * int w + x"
  have p: "pixelIndex w x y = nat (z * 4)" by (simp add: pixelIndex_def z_def)
  show ?thesis
  proof (cases "0 \<le> z")
    case True
    then have "nat (z * 4) = nat z * 4" by (simp add: nat_mult_distrib)
    then show ?thesis by (simp add: p)
  next
    case False
    then have "nat (z * 4) = 0" by simp
    then show ?thesis by (simp add: p)
  qed
qed

lemma fold_invariant:
  assumes "P d" and "\<And>c d. c \<in> set cs \<Longrightarrow> P d \<Longrightarrow> P (step c d)"
  shows "P (fold step cs d)"
  using assms by (induction cs arbitrary: d) simp_all

lemma sameColours_refl: "sameColours d d"
  by (simp add: sameColours_def)

lemma sameColours_trans: "sameColours a b \<Longrightarrow> sameColours b c \<Longrightarrow> sameColours a c"
  by (simp add: sameColours_def)

lemma nth_update_cases: "j < length d \<Longrightarrow> d[i := v] ! j = (if i = j then v else d ! j)"
  by (cases "i = j") simp_all

lemma sameColours_alpha:
  assumes "sameColours d d'" "i mod 4 = 3"
  shows "sameColours (d[i := v]) d'"
  using assms by (auto simp: sameColours_def nth_update_cases)

lemma sameColours_copy:
  assumes "sameColours d d'"
  shows "sameColours (d[i := d' ! i]) d'"
  using assms by (auto simp: sameColours_def nth_update_cases)

lemma pointwise_pass:
  assumes len: "length d0 = w * h * 4"
    and mem: "(x, y) \<in> set (margin m w h)"
    and step: "\<And>c d. step c d =
                 (if P c then d[pixelIndex w (fst c) (snd c) + 3 := v c] else d)"
  shows "fold step (margin m w h) d0 ! (pixelIndex w x y + 3) =
           (if P (x, y) then v (x, y) else d0 ! (pixelIndex w x y + 3))"
proof -
  let ?j = "pixelIndex w x y + 3"
  have xy: "0 \<le> x" "x < int w" "0 \<le> y" "y < int h"
    using mem by (auto simp: margin_mem)
  have jlt: "?j < length d0"
    using pixelIndex_bound [OF xy, of 3] len by simp
  have slen: "length (step c d) = length d" for c d
    by (simp add: step)
  have other: "step c d ! ?j = d ! ?j" if "c \<in> set (margin m w h)" "c \<noteq> (x, y)" for c d
  proof -
    obtain x' y' where c: "c = (x', y')" by (cases c)
    have xy': "0 \<le> x'" "x' < int w" "0 \<le> y'"
      using that(1) by (auto simp: c margin_mem)
    have "?j \<noteq> pixelIndex w x' y' + 3"
      using pixelIndex_inj [OF xy(1,2,3) xy', of 3 3] that(2) c by auto
    then show ?thesis by (simp add: step c)
  qed
  show ?thesis
  proof (cases "P (x, y)")
    case True
    have "fold step (margin m w h) d0 ! ?j = v (x, y)"
    proof (rule fold_touched [where c = "(x, y)" and n = "length d0"])
      show "(x, y) \<in> set (margin m w h)" by (rule mem)
      show "length (step c d) = length d" for c d by (rule slen)
      show "step (x, y) d ! ?j = v (x, y)" if "length d = length d0" for d
        using True that jlt by (simp add: step)
      show "step c' d ! ?j = d ! ?j" if "c' \<in> set (margin m w h)" "c' \<noteq> (x, y)" for c' d
        using that by (rule other)
    qed simp
    with True show ?thesis by simp
  next
    case False
    have "fold step (margin m w h) d0 ! ?j = d0 ! ?j"
    proof (rule fold_untouched)
      fix c d assume cin: "c \<in> set (margin m w h)"
      show "step c d ! ?j = d ! ?j"
      proof (cases "c = (x, y)")
        case True
        with False show ?thesis by (simp add: step)
      next
        case False
        with cin show ?thesis by (rule other)
      qed
    qed
    with False show ?thesis by simp
  qed
qed

section \<open>Clamped stores and Gaussian weights\<close>

lemma bytes_update: "bytes d \<Longrightarrow> 0 \<le> v \<Longrightarrow> v \<le> 255 \<Longrightarrow> bytes (d[i := v])"
  using set_update_subset_insert [of d i v] by (auto simp: bytes_def)

lemma bytes_nth: "bytes d \<Longrightarrow> i < length d \<Longrightarrow> 0 \<le> d ! i \<and> d ! i \<le> 255"
  by (simp add: bytes_def)

lemma roundHalfEven_range:
  assumes "0 < v" "v < 255"
  shows "0 \<le> roundHalfEven v \<and> roundHalfEven v \<le> 255"
proof -
  have "0 \<le> \<lfloor>v\<rfloor>" using assms by simp
  moreover have "\<lfloor>v\<rfloor> < 255" using assms by (simp add: floor_less_iff)
  ultimately show ?thesis by (simp add: roundHalfEven_def Let_def)
qed

lemma toUint8Clamped_range: "0 \<le> toUint8Clamped n \<and> toUint8Clamped n \<le> 255"
  using roundHalfEven_range
  by (cases n) (auto simp: toUint8Clamped_def not_le)

lemma storeQuotient_range: "0 \<le> storeQuotient a ws \<and> storeQuotient a ws \<le> 255"
  using toUint8Clamped_range
  by (cases a) (auto simp: storeQuotient_def)

lemma gaussWeight_pos: "0 < gaussWeight dx dy sigma"
  by (simp add: gaussWeight_def Let_def)

lemma gaussWeight_centre: "gaussWeight 0 0 sigma = 1"
  by (simp add: gaussWeight_def Let_def)

lemma window_centre: "0 \<le> r \<Longrightarrow> (0, 0) \<in> set (window r)"
  by (force simp: window_def)

lemma member_le_sum_list_real:
  fixes xs :: "real list"
  assumes "\<forall>x \<in> set xs. 0 \<le> x" "y \<in> set xs"
  shows "y \<le> sum_list xs"
  using assms
proof (induction xs)
  case Nil
  then show ?case by simp
next
  case (Cons a xs)
  have nn: "0 \<le> sum_list xs" using Cons.prems(1) by (simp add: sum_list_nonneg)
  show ?case
  proof (cases "y = a")
    case True
    then show ?thesis using nn by simp
  next
    case False
    then have "y \<le> sum_list xs" using Cons by simp
    moreover have "0 \<le> a" using Cons.prems(1) by simp
    ultimately show ?thesis by simp
  qed
qed

lemma weights_ge_one:
  assumes "0 \<le> r"
  shows "1 \<le> sum_list (map (\<lambda>(dx, dy). gaussWeight dx dy sigma) (window r))"
proof -
  have "gaussWeight 0 0 sigma \<in> set (map (\<lambda>(dx, dy). gaussWeight dx dy sigma) (window r))"
    using window_centre [OF assms] by force
  moreover have "\<forall>x \<in> set (map (\<lambda>(dx, dy). gaussWeight dx dy sigma) (window r)). 0 \<le> x"
    using gaussWeight_pos by (auto simp: less_imp_le)
  ultimately have "gaussWeight 0 0 sigma \<le> sum_list (map (\<lambda>(dx, dy). gaussWeight dx dy sigma) (window r))"
    by (intro member_le_sum_list_real) simp_all
  then show ?thesis by (simp add: gaussWeight_centre)
qed

lemma featherSums_snd_gen:
  "snd (fold (\<lambda>(dx, dy) (alphaSum, weightSum).
        let weight = gaussWeight dx dy sigma
        in (alphaSum + f dx dy * weight, weightSum + weight)) win (a, ws)) =
   ws + sum_list (map (\<lambda>(dx, dy). gaussWeight dx dy sigma) win)"
  by (induction win arbitrary: a ws) (auto simp: Let_def)

lemma optimizeSums_snd_gen:
  "snd (fold (\<lambda>(dx, dy) (alphaSum, weightSum).
        let weight = gaussWeight dx dy sigma;
            nIndex = g dx dy
        in (num_add alphaSum (num_mul (readByte d (nIndex + 3)) weight),
            weightSum + weight)) win (a, ws)) =
   ws + sum_list (map (\<lambda>(dx, dy). gaussWeight dx dy sigma) win)"
  by (induction win arbitrary: a ws) (auto simp: Let_def)

lemma featherSums_weight: "1 \<le> snd (featherSums d w x y)"
  unfolding featherSums_def
  by (simp only: featherSums_snd_gen) (use weights_ge_one [of 2 "1.0"] in simp)

lemma optimizeSums_weight: "0 \<le> r \<Longrightarrow> 1 \<le> snd (optimizeSums d w x y sigma r)"
  unfolding optimizeSums_def
  by (simp only: optimizeSums_snd_gen) (use weights_ge_one [of r sigma] in simp)

lemma edgeSigma_radius: "1 \<le> \<lceil>edgeSigma s * 2\<rceil>"
proof -
  have "1 / 2 \<le> edgeSigma s" by (simp add: edgeSigma_def)
  then have "1 \<le> edgeSigma s * 2" by simp
  then show ?thesis by (simp add: le_ceiling_iff)
qed

section \<open>Noise removal: erosion and dilation\<close>

lemma erodeStep_length: "length (erodeStep od w c d) = length d"
  by (cases c) (simp add: erodeStep_def Let_def)

lemma dilateStep_length: "length (dilateStep od ed w c d) = length d"
  by (cases c) (simp add: dilateStep_def Let_def)

lemma erodeStep_other:
  "j \<noteq> pixelIndex w (fst c) (snd c) + 3 \<Longrightarrow> erodeStep od w c d ! j = d ! j"
  by (cases c) (simp add: erodeStep_def Let_def)

lemma dilateStep_other:
  "\<forall>k<4. j \<noteq> pixelIndex w (fst c) (snd c) + k \<Longrightarrow> dilateStep od ed w c d ! j = d ! j"
proof -
  assume a: "\<forall>k<4. j \<noteq> pixelIndex w (fst c) (snd c) + k"
  have "j \<noteq> pixelIndex w (fst c) (snd c) + 0" "j \<noteq> pixelIndex w (fst c) (snd c) + 1"
       "j \<noteq> pixelIndex w (fst c) (snd c) + 2" "j \<noteq> pixelIndex w (fst c) (snd c) + 3"
    using a [rule_format, of 0] a [rule_format, of 1] a [rule_format, of 2]
      a [rule_format, of 3] by simp_all
  then show ?thesis
    by (cases c) (simp add: dilateStep_def Let_def)
qed

lemma erosion_length: "length (erosion img) = length (data img)"
  by (simp add: erosion_def fold_length erodeStep_length)

lemma erosion_alpha:
  assumes len: "length (data img) = width img * height img * 4"
    and mem: "(x, y) \<in> set (interior (width img) (height img))"
  shows "erosion img ! (pixelIndex (width img) x y + 3) =
     (if data img ! (pixelIndex (width img) x y + 3) > 128 \<and>
         foregroundCount (data img) (width img) x y < 5
      then 0 else data img ! (pixelIndex (width img) x y + 3))"
proof -
  let ?w = "width img" and ?h = "height img"
  let ?j = "pixelIndex ?w x y + 3"
  have xy: "0 \<le> x" "x < int ?w" "0 \<le> y" "y < int ?h"
    using mem by (auto simp: interior_def margin_mem)
  have jlt: "?j < length (data img)"
    using pixelIndex_bound [OF xy, of 3] len by simp
  have other: "erodeStep (data img) ?w c d ! ?j = d ! ?j"
    if "c \<in> set (interior ?w ?h)" "c \<noteq> (x, y)" for c d
  proof -
    obtain x' y' where c: "c = (x', y')" by (cases c)
    have xy': "0 \<le> x'" "x' < int ?w" "0 \<le> y'"
      using that(1) by (auto simp: c interior_def margin_mem)
    have "?j \<noteq> pixelIndex ?w x' y' + 3"
      using pixelIndex_inj [OF xy(1,2,3) xy', of 3 3] that(2) c by auto
    then show ?thesis by (simp add: erodeStep_other c)
  qed
  show ?thesis
  proof (cases "data img ! ?j > 128 \<and> foregroundCount (data img) ?w x y < 5")
    case True
    have "fold (erodeStep (data img) ?w) (interior ?w ?h) (data img) ! ?j = 0"
    proof (rule fold_touched [where c = "(x, y)" and n = "length (data img)"])
      show "(x, y) \<in> set (interior ?w ?h)" by (rule mem)
      show "length (erodeStep (data img) ?w c d) = length d" for c d
        by (rule erodeStep_length)
      show "erodeStep (data img) ?w (x, y) d ! ?j = 0" if "length d = length (data img)" for d
        using True that jlt by (simp add: erodeStep_def Let_def)
      show "erodeStep (data img) ?w c' d ! ?j = d ! ?j"
        if "c' \<in> set (interior ?w ?h)" "c' \<noteq> (x, y)" for c' d
        using that by (rule other)
    qed simp
    with True show ?thesis by (simp add: erosion_def)
  next
    case False
    have "fold (erodeStep (data img) ?w) (interior ?w ?h) (data img) ! ?j = data img ! ?j"
    proof (rule fold_untouched)
      fix c d assume cin: "c \<in> set (interior ?w ?h)"
      show "erodeStep (data img) ?w c d ! ?j = d ! ?j"
      proof (cases "c = (x, y)")
        case True
        with False show ?thesis by (auto simp: erodeStep_def Let_def)
      next
        case False
        with cin show ?thesis by (rule other)
      qed
    qed
    with False show ?thesis by (simp add: erosion_def)
  qed
qed

lemma erosion_rgb:
  assumes "j mod 4 \<noteq> 3"
  shows "erosion img ! j = data img ! j"
  unfolding erosion_def
proof (rule fold_untouched)
  fix c d
  have "(pixelIndex (width img) (fst c) (snd c) + 3) mod 4 = 3"
    using pixelIndex_mod4 [of "width img" "fst c" "snd c"] by presburger
  then have "j \<noteq> pixelIndex (width img) (fst c) (snd c) + 3" using assms by auto
  then show "erodeStep (data img) (width img) c d ! j = d ! j" by (rule erodeStep_other)
qed

lemma removeNoise_pixel:
  assumes len: "length (data img) = width img * height img * 4"
    and mem: "(x, y) \<in> set (interior (width img) (height img))"
    and k: "k < 4"
  shows "data (removeNoise img) ! (pixelIndex (width img) x y + k) =
     (if erosion img ! (pixelIndex (width img) x y + 3) = 0 \<and>
         6 \<le> foregroundCount (erosion img) (width img) x y
      then data img ! (pixelIndex (width img) x y + k)
      else erosion img ! (pixelIndex (width img) x y + k))"
proof -
  let ?w = "width img" and ?h = "height img"
  let ?i = "pixelIndex ?w x y"
  let ?step = "dilateStep (data img) (erosion img) ?w"
  have xy: "0 \<le> x" "x < int ?w" "0 \<le> y" "y < int ?h"
    using mem by (auto simp: interior_def margin_mem)
  have ilt: "?i + 3 < length (data img)"
    using pixelIndex_bound [OF xy, of 3] len by simp
  have other: "?step c d ! (?i + k) = d ! (?i + k)"
    if "c \<in> set (interior ?w ?h)" "c \<noteq> (x, y)" for c d
  proof -
    obtain x' y' where c: "c = (x', y')" by (cases c)
    have xy': "0 \<le> x'" "x' < int ?w" "0 \<le> y'"
      using that(1) by (auto simp: c interior_def margin_mem)
    have "\<forall>k'<4. ?i + k \<noteq> pixelIndex ?w x' y' + k'"
      using pixelIndex_inj [OF xy(1,2,3) xy' k] that(2) c by auto
    then show ?thesis by (simp add: dilateStep_other c)
  qed
  have kcases: "k = 0 \<or> k = 1 \<or> k = 2 \<or> k = 3" using k by arith
  have dat: "data (removeNoise img) = fold ?step (interior ?w ?h) (erosion img)"
    by (simp add: removeNoise_def Let_def)
  show ?thesis
  proof (cases "erosion img ! (?i + 3) = 0 \<and> 6 \<le> foregroundCount (erosion img) ?w x y")
    case True
    have "fold ?step (interior ?w ?h) (erosion img) ! (?i + k) = data img ! (?i + k)"
    proof (rule fold_touched [where c = "(x, y)" and n = "length (data img)"])
      show "(x, y) \<in> set (interior ?w ?h)" by (rule mem)
      show "length (?step c d) = length d" for c d
        by (rule dilateStep_length)
      show "?step (x, y) d ! (?i + k) = data img ! (?i + k)"
        if "length d = length (data img)" for d
        using True that ilt kcases by (auto simp: dilateStep_def Let_def)
      show "?step c' d ! (?i + k) = d ! (?i + k)"
        if "c' \<in> set (interior ?w ?h)" "c' \<noteq> (x, y)" for c' d
        using that by (rule other)
    qed (simp add: erosion_length)
    with True show ?thesis by (simp add: dat)
  next
    case False
    have "fold ?step (interior ?w ?h) (erosion img) ! (?i + k) = erosion img ! (?i + k)"
    proof (rule fold_untouched)
      fix c d assume cin: "c \<in> set (interior ?w ?h)"
      show "?step c d ! (?i + k) = d ! (?i + k)"
      proof (cases "c = (x, y)")
        case True
        with False show ?thesis by (auto simp: dilateStep_def Let_def)
      next
        case False
        with cin show ?thesis by (rule other)
      qed
    qed
    with False show ?thesis by (auto simp: dat)
  qed
qed

lemma foregroundCount_split:
  "foregroundCount src w x y =
     foregroundNeighbours src w x y + (if src ! (pixelIndex w x y + 3) > 128 then 1 else 0)"
  by (simp add: foregroundCount_def foregroundNeighbours_def window_def neighbours8_def
      upto_rec1 [of "-1" 1] upto_rec1 [of 0 1])

lemma erodeStep_zero_or_same:
  "erodeStep od w c d ! j = d ! j \<or> erodeStep od w c d ! j = 0"
proof -
  have "d[i := 0] ! j = d ! j \<or> d[i := 0] ! j = 0" for i
  proof (cases "i < length d")
    case True
    then show ?thesis by (simp add: nth_list_update)
  next
    case False
    then have "d[i := 0] = d" by (simp add: list_update_beyond)
    then show ?thesis by simp
  qed
  then show ?thesis by (cases c) (simp add: erodeStep_def Let_def)
qed

lemma fold_erodeStep_zero_or_same:
  "fold (erodeStep od w) cs d ! j = d ! j \<or> fold (erodeStep od w) cs d ! j = 0"
proof (induction cs arbitrary: d)
  case Nil
  then show ?case by simp
next
  case (Cons c cs)
  show ?case
    using Cons.IH [of "erodeStep od w c d"] erodeStep_zero_or_same [of od w c d j] by auto
qed

lemma erosion_zero_or_same: "erosion img ! j = data img ! j \<or> erosion img ! j = 0"
  unfolding erosion_def by (rule fold_erodeStep_zero_or_same)

lemma filter_length_mono:
  "(\<And>x. x \<in> set xs \<Longrightarrow> P x \<Longrightarrow> Q x) \<Longrightarrow> length (filter P xs) \<le> length (filter Q xs)"
  by (induction xs) auto

lemma foregroundCount_erosion:
  "foregroundCount (erosion img) w x y \<le> foregroundCount (data img) w x y"
  unfolding foregroundCount_def
proof (rule filter_length_mono)
  fix c assume "case c of (dx, dy) \<Rightarrow> erosion img ! (pixelIndex w (x + dx) (y + dy) + 3) > 128"
  then show "case c of (dx, dy) \<Rightarrow> data img ! (pixelIndex w (x + dx) (y + dy) + 3) > 128"
    using erosion_zero_or_same [of img] by (cases c) (auto, metis not_numeral_less_zero)
qed

lemma foregroundNeighbours_erosion:
  "foregroundNeighbours (erosion img) w x y \<le> foregroundNeighbours (data img) w x y"
  unfolding foregroundNeighbours_def
proof (rule filter_length_mono)
  fix c assume "case c of (dx, dy) \<Rightarrow> erosion img ! (pixelIndex w (x + dx) (y + dy) + 3) > 128"
  then show "case c of (dx, dy) \<Rightarrow> data img ! (pixelIndex w (x + dx) (y + dy) + 3) > 128"
    using erosion_zero_or_same [of img] by (cases c) (auto, metis not_numeral_less_zero)
qed

lemma dilation_restores_nothing:
  assumes len: "length (data img) = width img * height img * 4"
    and mem: "(x, y) \<in> set (interior (width img) (height img))"
    and z: "erosion img ! (pixelIndex (width img) x y + 3) = 0"
    and six: "6 \<le> foregroundCount (erosion img) (width img) x y"
    and k: "k < 4"
  shows "data img ! (pixelIndex (width img) x y + k) = erosion img ! (pixelIndex (width img) x y + k)"
proof (cases "k = 3")
  case True
  have "\<not> (data img ! (pixelIndex (width img) x y + 3) > 128 \<and>
            foregroundCount (data img) (width img) x y < 5)"
    using six foregroundCount_erosion [of img "width img" x y] by simp
  then show ?thesis using erosion_alpha [OF len mem] True by simp
next
  case False
  have "(pixelIndex (width img) x y + k) mod 4 = k"
    using pixelIndex_mod4 [of "width img" x y] k by presburger
  then have "(pixelIndex (width img) x y + k) mod 4 \<noteq> 3" using False by simp
  then show ?thesis by (simp add: erosion_rgb)
qed

lemma removeNoise_erosion:
  assumes len: "length (data img) = width img * height img * 4"
  shows "data (removeNoise img) = erosion img"
proof -
  let ?w = "width img" and ?h = "height img"
  let ?step = "dilateStep (data img) (erosion img) ?w"
  have step: "?step c (erosion img) = erosion img" if c: "c \<in> set (interior ?w ?h)" for c
  proof -
    obtain x y where cxy: "c = (x, y)" by (cases c)
    show ?thesis
    proof (cases "erosion img ! (pixelIndex ?w x y + 3) = 0 \<and>
                  6 \<le> foregroundCount (erosion img) ?w x y")
      case True
      have eq: "data img ! (pixelIndex ?w x y + k) = erosion img ! (pixelIndex ?w x y + k)"
        if "k < 4" for k
        using dilation_restores_nothing [OF len c [unfolded cxy] _ _ that] True by blast
      let ?i = "pixelIndex ?w x y"
      have "(erosion img)[?i := data img ! ?i, ?i + 1 := data img ! (?i + 1),
               ?i + 2 := data img ! (?i + 2), ?i + 3 := data img ! (?i + 3)] = erosion img"
        using eq [of 0] eq [of 1] eq [of 2] eq [of 3] by (simp only: list_update_id) simp
      with True show ?thesis by (simp add: cxy dilateStep_def Let_def)
    next
      case False
      then show ?thesis by (auto simp: cxy dilateStep_def Let_def)
    qed
  qed
  have "fold ?step (interior ?w ?h) (erosion img) = erosion img"
    by (rule fold_invariant [where P = "\<lambda>d. d = erosion img"]) (simp_all add: step)
  then show ?thesis by (simp add: removeNoise_def Let_def)
qed


lemma interior3: "interior 3 3 = [(1, 1)]"
  by (simp add: interior_def margin_def)

lemma ring3_erosion: "erosion ring3 = data ring3"
  by (simp add: erosion_def interior3 erodeStep_def pixelIndex_def ring3_def)

lemma threeNeighbours_count: "foregroundNeighbours (data threeNeighbours) 3 1 1 = 3"
  by (simp add: foregroundNeighbours_def neighbours8_def threeNeighbours_def pixelIndex_def)

text \<open>
  Claim C1, as the code has it. At a position with all eight neighbours in bounds:
  the erosion loop counts the foreground pixels of the whole 3 by 3 window, the centre
  included, so a foreground pixel is zeroed exactly when fewer than 4 of its 8
  neighbours are foreground (fewer than 5 of the 9 window pixels), and is left as it was
  otherwise. The dilation loop tests the eroded alpha for 0: such a pixel is written
  with its original colour and alpha when at least 6 of its 8 neighbours are foreground
  in the eroded buffer, and keeps alpha 0 otherwise. A pixel that the erosion zeroed has
  fewer than 4 foreground neighbours in the eroded buffer, so the dilation never gives it
  back; the pixels the dilation writes had alpha 0 before the erosion, and the buffer
  after the dilation is the eroded buffer.
\<close>

theorem removeNoise_passes:
  assumes wf: "wf_image img"
    and pos: "1 \<le> x" "x \<le> int (width img) - 2" "1 \<le> y" "y \<le> int (height img) - 2"
  shows "(alphaAt (data img) (width img) x y > 128 \<longrightarrow>
            (alphaAt (erosion img) (width img) x y = 0 \<longleftrightarrow>
             foregroundNeighbours (data img) (width img) x y < 4)) \<and>
         (alphaAt (erosion img) (width img) x y \<noteq> 0 \<longrightarrow>
            alphaAt (erosion img) (width img) x y = alphaAt (data img) (width img) x y) \<and>
         (alphaAt (erosion img) (width img) x y = 0 \<and>
          6 \<le> foregroundNeighbours (erosion img) (width img) x y \<longrightarrow>
            (\<forall>k<4. data (removeNoise img) ! (pixelIndex (width img) x y + k) =
                     data img ! (pixelIndex (width img) x y + k))) \<and>
         (alphaAt (erosion img) (width img) x y = 0 \<and>
          foregroundNeighbours (erosion img) (width img) x y < 6 \<longrightarrow>
            alphaAt (data (removeNoise img)) (width img) x y = 0) \<and>
         (alphaAt (data img) (width img) x y > 128 \<and>
          alphaAt (erosion img) (width img) x y = 0 \<longrightarrow>
            foregroundNeighbours (erosion img) (width img) x y < 4 \<and>
            alphaAt (data (removeNoise img)) (width img) x y = 0) \<and>
         data (removeNoise img) = erosion img"
proof -
  let ?w = "width img"
  let ?i = "pixelIndex ?w x y"
  have len: "length (data img) = width img * height img * 4"
    using wf by (simp add: wf_image_def)
  have mem: "(x, y) \<in> set (interior (width img) (height img))"
    using pos by (simp add: interior_def margin_mem)
  note er = erosion_alpha [OF len mem]
  note rn = removeNoise_pixel [OF len mem]
  have cnt: "foregroundCount (data img) ?w x y =
      foregroundNeighbours (data img) ?w x y + (if data img ! (?i + 3) > 128 then 1 else 0)"
    by (rule foregroundCount_split)
  have cnt': "erosion img ! (?i + 3) = 0 \<Longrightarrow>
      foregroundCount (erosion img) ?w x y = foregroundNeighbours (erosion img) ?w x y"
    by (simp add: foregroundCount_split)
  have one: "alphaAt (data img) ?w x y > 128 \<longrightarrow>
            (alphaAt (erosion img) ?w x y = 0 \<longleftrightarrow>
             foregroundNeighbours (data img) ?w x y < 4)"
    using er cnt by (auto simp: alphaAt_def)
  have two: "alphaAt (erosion img) ?w x y \<noteq> 0 \<longrightarrow>
            alphaAt (erosion img) ?w x y = alphaAt (data img) ?w x y"
    using er by (auto simp: alphaAt_def split: if_splits)
  have three: "\<forall>k<4. data (removeNoise img) ! (?i + k) = data img ! (?i + k)"
    if "alphaAt (erosion img) ?w x y = 0" "6 \<le> foregroundNeighbours (erosion img) ?w x y"
    using rn that cnt' by (simp add: alphaAt_def)
  have four: "alphaAt (data (removeNoise img)) ?w x y = 0"
    if "alphaAt (erosion img) ?w x y = 0" "foregroundNeighbours (erosion img) ?w x y < 6"
    using rn [of 3] that cnt' by (simp add: alphaAt_def)
  have five: "foregroundNeighbours (erosion img) ?w x y < 4 \<and>
      alphaAt (data (removeNoise img)) ?w x y = 0"
    if a: "alphaAt (data img) ?w x y > 128" "alphaAt (erosion img) ?w x y = 0"
  proof -
    have "foregroundNeighbours (data img) ?w x y < 4" using one a by blast
    then have lt: "foregroundNeighbours (erosion img) ?w x y < 4"
      using foregroundNeighbours_erosion [of img ?w x y] by simp
    then have "foregroundNeighbours (erosion img) ?w x y < 6" by simp
    with a(2) have "alphaAt (data (removeNoise img)) ?w x y = 0" by (rule four)
    with lt show ?thesis by blast
  qed
  have six: "data (removeNoise img) = erosion img"
    using len by (rule removeNoise_erosion)
  from one two three four five six show ?thesis by blast
qed

theorem removeNoise_passes_witness:
  "wf_image ring3 \<and>
   alphaAt (erosion ring3) (width ring3) 1 1 = 0 \<and>
   foregroundNeighbours (erosion ring3) (width ring3) 1 1 = 8 \<and>
   data (removeNoise ring3) ! (pixelIndex (width ring3) 1 1 + 3) =
     data ring3 ! (pixelIndex (width ring3) 1 1 + 3) \<and>
   wf_image threeNeighbours \<and>
   alphaAt (data threeNeighbours) (width threeNeighbours) 1 1 = 255 \<and>
   foregroundNeighbours (data threeNeighbours) (width threeNeighbours) 1 1 = 3 \<and>
   alphaAt (erosion threeNeighbours) (width threeNeighbours) 1 1 = 0 \<and>
   foregroundNeighbours (erosion threeNeighbours) (width threeNeighbours) 1 1 < 4 \<and>
   alphaAt (data (removeNoise threeNeighbours)) (width threeNeighbours) 1 1 = 0 \<and>
   data (removeNoise threeNeighbours) = erosion threeNeighbours"
proof -
  have wfr: "wf_image ring3"
    by (simp add: wf_image_def ring3_def)
  have posr: "(1::int) \<le> 1" "1 \<le> int (width ring3) - 2"
    "(1::int) \<le> 1" "1 \<le> int (height ring3) - 2"
    by (simp_all add: ring3_def)
  have ar: "alphaAt (erosion ring3) (width ring3) 1 1 = 0"
    unfolding ring3_erosion by (simp add: alphaAt_def ring3_def pixelIndex_def)
  have nr: "foregroundNeighbours (erosion ring3) (width ring3) 1 1 = 8"
    unfolding ring3_erosion
    by (simp add: foregroundNeighbours_def neighbours8_def ring3_def pixelIndex_def)
  have "alphaAt (erosion ring3) (width ring3) 1 1 = 0 \<and>
        6 \<le> foregroundNeighbours (erosion ring3) (width ring3) 1 1 \<longrightarrow>
        (\<forall>k<4. data (removeNoise ring3) ! (pixelIndex (width ring3) 1 1 + k) =
                 data ring3 ! (pixelIndex (width ring3) 1 1 + k))"
    using removeNoise_passes [OF wfr posr] by blast
  with ar nr have "\<forall>k<4. data (removeNoise ring3) ! (pixelIndex (width ring3) 1 1 + k) =
                 data ring3 ! (pixelIndex (width ring3) 1 1 + k)" by simp
  then have rr: "data (removeNoise ring3) ! (pixelIndex (width ring3) 1 1 + 3) =
     data ring3 ! (pixelIndex (width ring3) 1 1 + 3)" by simp
  have wft: "wf_image threeNeighbours"
    by (simp add: wf_image_def threeNeighbours_def)
  have post: "(1::int) \<le> 1" "1 \<le> int (width threeNeighbours) - 2"
    "(1::int) \<le> 1" "1 \<le> int (height threeNeighbours) - 2"
    by (simp_all add: threeNeighbours_def)
  have w3: "width threeNeighbours = 3" by (simp add: threeNeighbours_def)
  have at: "alphaAt (data threeNeighbours) (width threeNeighbours) 1 1 = 255"
    by (simp add: alphaAt_def threeNeighbours_def pixelIndex_def)
  have nt: "foregroundNeighbours (data threeNeighbours) (width threeNeighbours) 1 1 = 3"
    unfolding w3 by (rule threeNeighbours_count)
  note t = removeNoise_passes [OF wft post]
  have "alphaAt (data threeNeighbours) (width threeNeighbours) 1 1 > 128 \<longrightarrow>
            (alphaAt (erosion threeNeighbours) (width threeNeighbours) 1 1 = 0 \<longleftrightarrow>
             foregroundNeighbours (data threeNeighbours) (width threeNeighbours) 1 1 < 4)"
    using t by blast
  with at nt have et: "alphaAt (erosion threeNeighbours) (width threeNeighbours) 1 1 = 0"
    by simp
  have "alphaAt (data threeNeighbours) (width threeNeighbours) 1 1 > 128 \<and>
          alphaAt (erosion threeNeighbours) (width threeNeighbours) 1 1 = 0 \<longrightarrow>
            foregroundNeighbours (erosion threeNeighbours) (width threeNeighbours) 1 1 < 4 \<and>
            alphaAt (data (removeNoise threeNeighbours)) (width threeNeighbours) 1 1 = 0"
    using t by blast
  with at et have ot:
    "foregroundNeighbours (erosion threeNeighbours) (width threeNeighbours) 1 1 < 4 \<and>
     alphaAt (data (removeNoise threeNeighbours)) (width threeNeighbours) 1 1 = 0"
    by simp
  have eq: "data (removeNoise threeNeighbours) = erosion threeNeighbours"
    using t by blast
  from wfr ar nr rr wft at nt et ot eq show ?thesis by blast
qed

text \<open>
  The claim as worded ("fewer than 5 of its 8 neighbours") fails on the mask above: the
  centre pixel is foreground with 4 foreground neighbours, and the erosion keeps it.
\<close>

theorem removeNoise_four_neighbours_kept:
  "wf_image fourNeighbours \<and>
   alphaAt (data fourNeighbours) 3 1 1 > 128 \<and>
   foregroundNeighbours (data fourNeighbours) 3 1 1 < 5 \<and>
   alphaAt (erosion fourNeighbours) 3 1 1 = 255"
  by (simp add: wf_image_def fourNeighbours_def alphaAt_def foregroundNeighbours_def
      neighbours8_def pixelIndex_def erosion_def interior_def margin_def erodeStep_def
      foregroundCount_def window_def upto_rec1 [of "-1" 1] upto_rec1 [of 0 1])

section \<open>Background removal changes alpha only\<close>

lemma removeStep_sameColours:
  assumes "sameColours d d'" "i mod 4 = 0"
  shows "sameColours (removeStep img bg em i d) d'"
proof -
  have "(i + 3) mod 4 = 3" using assms(2) by presburger
  then show ?thesis
    using assms(1) by (simp add: removeStep_def Let_def sameColours_alpha)
qed

lemma erodeStep_sameColours:
  assumes "sameColours d d'"
  shows "sameColours (erodeStep od w c d) d'"
proof -
  have "(pixelIndex w (fst c) (snd c) + 3) mod 4 = 3"
    using pixelIndex_mod4 [of w "fst c" "snd c"] by presburger
  then show ?thesis
    using assms by (cases c) (simp add: erodeStep_def Let_def sameColours_alpha)
qed

lemma dilateStep_sameColours:
  assumes "sameColours d od"
  shows "sameColours (dilateStep od ed w c d) od"
  using assms
  by (cases c) (simp add: dilateStep_def Let_def sameColours_copy)

lemma removeNoise_sameColours: "sameColours (data (removeNoise img)) (data img)"
proof -
  have "sameColours (erosion img) (data img)"
    unfolding erosion_def
    by (rule fold_invariant [where P = "\<lambda>d. sameColours d (data img)"])
       (simp_all add: sameColours_refl erodeStep_sameColours)
  then show ?thesis
    unfolding removeNoise_def Let_def
    by (simp, intro fold_invariant [where P = "\<lambda>d. sameColours d (data img)"])
       (simp_all add: dilateStep_sameColours)
qed

lemma removeNoise_dims: "width (removeNoise img) = width img \<and> height (removeNoise img) = height img"
  by (simp add: removeNoise_def Let_def)

lemma removeBackground_sameColours: "sameColours (data (removeBackground img)) (data img)"
proof -
  define d where "d = fold (removeStep img (detectBackgroundColors img) (createEdgeMap img))
                (pixelOffsets (length (data img))) (data img)"
  have d: "sameColours d (data img)"
    unfolding d_def
    by (rule fold_invariant [where P = "\<lambda>d. sameColours d (data img)"])
       (auto simp: sameColours_refl pixelOffsets_def intro: removeStep_sameColours)
  have "sameColours (data (removeNoise (img\<lparr>data := d\<rparr>))) (data (img\<lparr>data := d\<rparr>))"
    by (rule removeNoise_sameColours)
  then have "sameColours (data (removeNoise (img\<lparr>data := d\<rparr>))) (data img)"
    using d by (simp add: sameColours_trans)
  then show ?thesis by (simp add: removeBackground_def Let_def d_def)
qed

text \<open>
  Claim C10. On a well-formed image the whole \<open>removeBackground\<close> pass
  (classification, edge falloff and noise removal) returns an image of the same width,
  height and buffer length whose red, green and blue bytes are those of the input at
  every pixel: only alpha bytes change.
\<close>

theorem removeBackground_frame:
  assumes "wf_image img"
  shows "width (removeBackground img) = width img \<and>
         height (removeBackground img) = height img \<and>
         length (data (removeBackground img)) = length (data img) \<and>
         (\<forall>p < width img * height img.
            data (removeBackground img) ! (4 * p) = data img ! (4 * p) \<and>
            data (removeBackground img) ! (4 * p + 1) = data img ! (4 * p + 1) \<and>
            data (removeBackground img) ! (4 * p + 2) = data img ! (4 * p + 2))"
proof -
  have len: "length (data img) = width img * height img * 4"
    using assms by (simp add: wf_image_def)
  have sc: "sameColours (data (removeBackground img)) (data img)"
    by (rule removeBackground_sameColours)
  have dims: "width (removeBackground img) = width img \<and>
              height (removeBackground img) = height img"
    by (simp add: removeBackground_def Let_def removeNoise_dims)
  have px: "data (removeBackground img) ! (4 * p + k) = data img ! (4 * p + k)"
    if "p < width img * height img" "k < 3" for p k
  proof -
    have "4 * p + k < length (data img)" using that len by simp
    moreover have "(4 * p + k) mod 4 \<noteq> 3" using that(2) by presburger
    ultimately show ?thesis using sc by (simp add: sameColours_def)
  qed
  show ?thesis
    using sc dims px [of _ 0] px [of _ 1] px [of _ 2] by (simp add: sameColours_def)
qed

theorem removeBackground_frame_witness:
  "wf_image fourNeighbours \<and>
   width (removeBackground fourNeighbours) = 3 \<and>
   height (removeBackground fourNeighbours) = 3 \<and>
   data (removeBackground fourNeighbours) ! (4 * 8) = 10 \<and>
   data (removeBackground fourNeighbours) ! (4 * 8 + 1) = 20 \<and>
   data (removeBackground fourNeighbours) ! (4 * 8 + 2) = 30"
proof -
  have wf: "wf_image fourNeighbours"
    by (simp add: wf_image_def fourNeighbours_def)
  have p: "8 < width fourNeighbours * height fourNeighbours"
    by (simp add: fourNeighbours_def)
  have "data (removeBackground fourNeighbours) ! (4 * 8) = data fourNeighbours ! (4 * 8) \<and>
        data (removeBackground fourNeighbours) ! (4 * 8 + 1) = data fourNeighbours ! (4 * 8 + 1) \<and>
        data (removeBackground fourNeighbours) ! (4 * 8 + 2) = data fourNeighbours ! (4 * 8 + 2)"
    using removeBackground_frame [OF wf] p by blast
  moreover have "width (removeBackground fourNeighbours) = width fourNeighbours \<and>
        height (removeBackground fourNeighbours) = height fourNeighbours"
    using removeBackground_frame [OF wf] by blast
  ultimately show ?thesis using wf by (simp add: fourNeighbours_def)
qed

section \<open>Every post-processing pass changes alpha bytes only\<close>

lemma wf_image_bytes:
  "wf_image img \<longleftrightarrow> length (data img) = width img * height img * 4 \<and> bytes (data img)"
  by (simp add: wf_image_def bytes_def)

lemma alphaOnly_refl: "bytes d \<Longrightarrow> alphaOnly d d"
  by (simp add: alphaOnly_def sameColours_refl)

lemma alphaOnly_update:
  "alphaOnly d0 d \<Longrightarrow> i mod 4 = 3 \<Longrightarrow> 0 \<le> v \<Longrightarrow> v \<le> 255 \<Longrightarrow> alphaOnly d0 (d[i := v])"
  by (simp add: alphaOnly_def sameColours_alpha bytes_update)

lemma alphaOnly_trans: "alphaOnly a b \<Longrightarrow> alphaOnly b c \<Longrightarrow> alphaOnly a c"
  using sameColours_trans by (auto simp: alphaOnly_def)

lemma alphaOnly_wf:
  assumes "wf_image img" "alphaOnly (data img) d"
  shows "wf_image (img\<lparr>data := d\<rparr>)"
  using assms by (simp add: wf_image_bytes alphaOnly_def sameColours_def)

lemma pixelIndex_alpha_mod: "(pixelIndex w x y + 3) mod 4 = 3"
  using pixelIndex_mod4 [of w x y] by presburger

lemma window_mem:
  "(dx, dy) \<in> set (window r) \<longleftrightarrow> - r \<le> dx \<and> dx \<le> r \<and> - r \<le> dy \<and> dy \<le> r"
  by (force simp: window_def)

text \<open>A read of the alpha byte of a pixel inside the image gives a byte.\<close>

lemma alpha_read:
  assumes "wf_image img" "0 \<le> x" "x < int (width img)" "0 \<le> y" "y < int (height img)"
  shows "0 \<le> data img ! (pixelIndex (width img) x y + 3) \<and>
         data img ! (pixelIndex (width img) x y + 3) \<le> 255"
proof -
  have "pixelIndex (width img) x y + 3 < length (data img)"
    using pixelIndex_bound [OF assms(2-5), of 3] assms(1) by (simp add: wf_image_def)
  then show ?thesis using assms(1) by (simp add: wf_image_bytes bytes_nth)
qed

lemma window_read:
  assumes wf: "wf_image img"
    and c: "(x, y) \<in> set (margin m (width img) (height img))"
    and o: "(dx, dy) \<in> set (window r)" and rm: "r \<le> int m"
  shows "0 \<le> data img ! (pixelIndex (width img) (x + dx) (y + dy) + 3) \<and>
         data img ! (pixelIndex (width img) (x + dx) (y + dy) + 3) \<le> 255"
proof -
  have "0 \<le> x + dx" "x + dx < int (width img)" "0 \<le> y + dy" "y + dy < int (height img)"
    using c o rm by (auto simp: margin_mem window_mem)
  then show ?thesis by (rule alpha_read [OF wf])
qed

lemma fold_min_range:
  assumes "\<forall>(dx, dy) \<in> set cs. 0 \<le> f dx dy \<and> f dx dy \<le> (255::int)" "0 \<le> m" "m \<le> 255"
  shows "0 \<le> fold (\<lambda>(dx, dy) m. min m (f dx dy)) cs m \<and>
         fold (\<lambda>(dx, dy) m. min m (f dx dy)) cs m \<le> 255"
  using assms by (induction cs arbitrary: m) (auto simp: min_def)

lemma fold_max_range:
  assumes "\<forall>(dx, dy) \<in> set cs. 0 \<le> f dx dy \<and> f dx dy \<le> (255::int)" "0 \<le> m" "m \<le> 255"
  shows "0 \<le> fold (\<lambda>(dx, dy) m. max m (f dx dy)) cs m \<and>
         fold (\<lambda>(dx, dy) m. max m (f dx dy)) cs m \<le> 255"
  using assms by (induction cs arbitrary: m) (auto simp: max_def)

lemma window1_length: "length (window 1) = 9"
  by (simp add: window_def upto_rec1 [of "-1" 1] upto_rec1 [of 0 1])

lemma median_range:
  assumes "\<forall>(dx, dy) \<in> set (window 1). 0 \<le> f dx dy \<and> f dx dy \<le> (255::int)"
  shows "0 \<le> sort (map (\<lambda>(dx, dy). f dx dy) (window 1)) ! 4 \<and>
         sort (map (\<lambda>(dx, dy). f dx dy) (window 1)) ! 4 \<le> 255"
proof -
  let ?xs = "sort (map (\<lambda>(dx, dy). f dx dy) (window 1))"
  have "length ?xs = 9" by (simp add: window1_length)
  then have "?xs ! 4 \<in> set ?xs" by (intro nth_mem) simp
  then have "?xs ! 4 \<in> (\<lambda>(dx, dy). f dx dy) ` set (window 1)" by simp
  then show ?thesis using assms by auto
qed

lemma medianFilter_alphaOnly:
  assumes wf: "wf_image img"
  shows "alphaOnly (data img) (data (medianFilter img))"
proof -
  have "alphaOnly (data img)
      (fold (medianStep (data img) (width img)) (interior (width img) (height img)) (data img))"
  proof (rule fold_invariant [where P = "alphaOnly (data img)"])
    show "alphaOnly (data img) (data img)"
      using wf by (simp add: alphaOnly_refl wf_image_bytes)
  next
    fix c d
    assume c: "c \<in> set (interior (width img) (height img))" and inv: "alphaOnly (data img) d"
    obtain x y where xy: "c = (x, y)" by (cases c)
    have rd: "\<forall>(dx, dy) \<in> set (window 1).
        0 \<le> data img ! (pixelIndex (width img) (x + dx) (y + dy) + 3) \<and>
        data img ! (pixelIndex (width img) (x + dx) (y + dy) + 3) \<le> 255"
      using window_read [OF wf, of x y 1 _ _ 1] c xy by (auto simp: interior_def)
    show "alphaOnly (data img) (medianStep (data img) (width img) c d)"
      unfolding xy medianStep_def Let_def prod.case
      by (rule alphaOnly_update [OF inv pixelIndex_alpha_mod])
         (use median_range [OF rd] in simp_all)
  qed
  then show ?thesis by (simp add: medianFilter_def)
qed


lemma morphologicalOperations_alphaOnly:
  assumes wf: "wf_image img"
  shows "alphaOnly (data img) (data (morphologicalOperations img))"
proof -
  let ?w = "width img" and ?h = "height img"
  define e where "e = fold (minStep (data img) ?w) (interior ?w ?h) (data img)"
  have e: "alphaOnly (data img) e"
    unfolding e_def
  proof (rule fold_invariant [where P = "alphaOnly (data img)"])
    show "alphaOnly (data img) (data img)"
      using wf by (simp add: alphaOnly_refl wf_image_bytes)
  next
    fix c d
    assume c: "c \<in> set (interior ?w ?h)" and inv: "alphaOnly (data img) d"
    obtain x y where xy: "c = (x, y)" by (cases c)
    have rd: "\<forall>(dx, dy) \<in> set (window 1).
        0 \<le> data img ! (pixelIndex ?w (x + dx) (y + dy) + 3) \<and>
        data img ! (pixelIndex ?w (x + dx) (y + dy) + 3) \<le> 255"
      using window_read [OF wf, of x y 1 _ _ 1] c xy by (auto simp: interior_def)
    show "alphaOnly (data img) (minStep (data img) ?w c d)"
      unfolding xy minStep_def Let_def prod.case
      by (rule alphaOnly_update [OF inv pixelIndex_alpha_mod])
         (use fold_min_range [OF rd, of 255] in simp_all)
  qed
  have wfe: "wf_image (img\<lparr>data := e\<rparr>)" using wf e by (rule alphaOnly_wf)
  have "alphaOnly e (fold (maxStep e ?w) (interior ?w ?h) e)"
  proof (rule fold_invariant [where P = "alphaOnly e"])
    have "bytes e" using e by (simp add: alphaOnly_def)
    then show "alphaOnly e e" by (rule alphaOnly_refl)
  next
    fix c d
    assume c: "c \<in> set (interior ?w ?h)" and inv: "alphaOnly e d"
    obtain x y where xy: "c = (x, y)" by (cases c)
    have rd: "\<forall>(dx, dy) \<in> set (window 1).
        0 \<le> e ! (pixelIndex ?w (x + dx) (y + dy) + 3) \<and>
        e ! (pixelIndex ?w (x + dx) (y + dy) + 3) \<le> 255"
      using window_read [OF wfe, of x y 1 _ _ 1] c xy by (auto simp: interior_def)
    show "alphaOnly e (maxStep e ?w c d)"
      unfolding xy maxStep_def Let_def prod.case
      by (rule alphaOnly_update [OF inv pixelIndex_alpha_mod])
         (use fold_max_range [OF rd, of 0] in simp_all)
  qed
  with e have "alphaOnly (data img) (fold (maxStep e ?w) (interior ?w ?h) e)"
    by (rule alphaOnly_trans)
  then show ?thesis by (simp add: morphologicalOperations_def Let_def e_def)
qed

lemma quotient_pass_alphaOnly:
  assumes wf: "wf_image img"
    and step: "\<And>c d. step c d = d \<or>
                 (\<exists>x y a ws. step c d = d[pixelIndex (width img) x y + 3 := storeQuotient a ws])"
  shows "alphaOnly (data img) (fold step cs (data img))"
proof (rule fold_invariant [where P = "alphaOnly (data img)"])
  show "alphaOnly (data img) (data img)"
    using wf by (simp add: alphaOnly_refl wf_image_bytes)
next
  fix c d
  assume inv: "alphaOnly (data img) d"
  from step [of c d] show "alphaOnly (data img) (step c d)"
  proof
    assume "step c d = d"
    with inv show ?thesis by simp
  next
    assume "\<exists>x y a ws. step c d = d[pixelIndex (width img) x y + 3 := storeQuotient a ws]"
    then obtain x y a ws
      where s: "step c d = d[pixelIndex (width img) x y + 3 := storeQuotient a ws]"
      by blast
    show ?thesis
      unfolding s
      by (rule alphaOnly_update [OF inv pixelIndex_alpha_mod])
         (simp_all add: storeQuotient_range)
  qed
qed

lemma edgeFeathering_alphaOnly:
  assumes wf: "wf_image img"
  shows "alphaOnly (data img) (data (edgeFeathering img))"
proof -
  have "alphaOnly (data img)
     (fold (featherStep (data img) (width img) (height img))
        (margin 2 (width img) (height img)) (data img))"
  proof (rule quotient_pass_alphaOnly [OF wf])
    fix c :: "int \<times> int" and d :: "int list"
    obtain x y where xy: "c = (x, y)" by (cases c)
    show "featherStep (data img) (width img) (height img) c d = d \<or>
          (\<exists>x y a ws. featherStep (data img) (width img) (height img) c d =
               d[pixelIndex (width img) x y + 3 := storeQuotient a ws])"
      unfolding xy featherStep_def Let_def prod.case
      by (auto simp: case_prod_beta)
  qed
  then show ?thesis by (simp add: edgeFeathering_def)
qed

lemma bilateralFilter_alphaOnly:
  assumes wf: "wf_image img"
  shows "alphaOnly (data img) (data (bilateralFilter img))"
proof -
  have "alphaOnly (data img)
     (fold (bilateralStep (data img) (width img))
        (margin 5 (width img) (height img)) (data img))"
  proof (rule quotient_pass_alphaOnly [OF wf])
    fix c :: "int \<times> int" and d :: "int list"
    obtain x y where xy: "c = (x, y)" by (cases c)
    show "bilateralStep (data img) (width img) c d = d \<or>
          (\<exists>x y a ws. bilateralStep (data img) (width img) c d =
               d[pixelIndex (width img) x y + 3 := storeQuotient a ws])"
      unfolding xy bilateralStep_def Let_def prod.case
      by (auto simp: case_prod_beta)
  qed
  then show ?thesis by (simp add: bilateralFilter_def)
qed

lemma edgeOptimization_alphaOnly:
  assumes wf: "wf_image img"
  shows "alphaOnly (data img) (data (edgeOptimization img))"
proof -
  have "alphaOnly (data img)
     (fold (optimizeStep (data img) (width img) (height img))
        (margin 2 (width img) (height img)) (data img))"
  proof (rule quotient_pass_alphaOnly [OF wf])
    fix c :: "int \<times> int" and d :: "int list"
    obtain x y where xy: "c = (x, y)" by (cases c)
    show "optimizeStep (data img) (width img) (height img) c d = d \<or>
          (\<exists>x y a ws. optimizeStep (data img) (width img) (height img) c d =
               d[pixelIndex (width img) x y + 3 := storeQuotient a ws])"
      unfolding xy optimizeStep_def Let_def prod.case
      by (auto simp: case_prod_beta)
  qed
  then show ?thesis by (simp add: edgeOptimization_def)
qed

lemma clearComponent_alphaOnly:
  assumes "alphaOnly d0 d"
  shows "alphaOnly d0 (clearComponent cmpt d)"
  unfolding clearComponent_def
proof (rule fold_invariant [where P = "alphaOnly d0"])
  show "alphaOnly d0 d" by (rule assms)
next
  fix p :: nat and d' :: "int list"
  assume "alphaOnly d0 d'"
  moreover have "(p * 4 + 3) mod 4 = 3" by presburger
  ultimately show "alphaOnly d0 (d'[p * 4 + 3 := 0])"
    by (rule alphaOnly_update) simp_all
qed

lemma connectedComponentAnalysis_alphaOnly:
  assumes wf: "wf_image img"
  shows "alphaOnly (data img) (data (connectedComponentAnalysis img))"
proof -
  have "alphaOnly (data img)
     (fold (\<lambda>component d.
              if real (length component) < minComponentSize (width img) (height img)
              then clearComponent component d else d)
        (findComponents img) (data img))"
  proof (rule fold_invariant [where P = "alphaOnly (data img)"])
    show "alphaOnly (data img) (data img)"
      using wf by (simp add: alphaOnly_refl wf_image_bytes)
  qed (simp add: clearComponent_alphaOnly)
  then show ?thesis by (simp add: connectedComponentAnalysis_def Let_def)
qed

lemma pass_dims:
  "width (medianFilter img) = width img" "height (medianFilter img) = height img"
  "width (morphologicalOperations img) = width img"
  "height (morphologicalOperations img) = height img"
  "width (edgeFeathering img) = width img" "height (edgeFeathering img) = height img"
  "width (bilateralFilter img) = width img" "height (bilateralFilter img) = height img"
  "width (connectedComponentAnalysis img) = width img"
  "height (connectedComponentAnalysis img) = height img"
  "width (edgeOptimization img) = width img" "height (edgeOptimization img) = height img"
  by (simp_all add: medianFilter_def morphologicalOperations_def edgeFeathering_def
      bilateralFilter_def connectedComponentAnalysis_def edgeOptimization_def Let_def)

lemma pass_wf:
  assumes "wf_image img" "alphaOnly (data img) (data img')"
    "width img' = width img" "height img' = height img"
  shows "wf_image img'"
  using assms by (simp add: wf_image_bytes alphaOnly_def sameColours_def)

lemma mp_postProcess_alphaOnly:
  assumes wf: "wf_image img"
  shows "wf_image (mp_postProcessSegmentation img) \<and>
         alphaOnly (data img) (data (mp_postProcessSegmentation img))"
proof -
  let ?a = "medianFilter img"
  let ?b = "morphologicalOperations ?a"
  let ?c = "edgeFeathering ?b"
  have a: "alphaOnly (data img) (data ?a)" using wf by (rule medianFilter_alphaOnly)
  have wa: "wf_image ?a" using wf a by (rule pass_wf) (simp_all add: pass_dims)
  have b: "alphaOnly (data ?a) (data ?b)" using wa by (rule morphologicalOperations_alphaOnly)
  have wb: "wf_image ?b" using wa b by (rule pass_wf) (simp_all add: pass_dims)
  have c: "alphaOnly (data ?b) (data ?c)" using wb by (rule edgeFeathering_alphaOnly)
  have wc: "wf_image ?c" using wb c by (rule pass_wf) (simp_all add: pass_dims)
  have "alphaOnly (data img) (data ?c)"
    using a b c by (blast intro: alphaOnly_trans)
  with wc show ?thesis by (simp add: mp_postProcessSegmentation_def)
qed

lemma tf_postProcess_alphaOnly:
  assumes wf: "wf_image img"
  shows "wf_image (tf_postProcessSegmentation img) \<and>
         alphaOnly (data img) (data (tf_postProcessSegmentation img))"
proof -
  let ?a = "bilateralFilter img"
  let ?b = "connectedComponentAnalysis ?a"
  let ?c = "edgeOptimization ?b"
  have a: "alphaOnly (data img) (data ?a)" using wf by (rule bilateralFilter_alphaOnly)
  have wa: "wf_image ?a" using wf a by (rule pass_wf) (simp_all add: pass_dims)
  have b: "alphaOnly (data ?a) (data ?b)" using wa by (rule connectedComponentAnalysis_alphaOnly)
  have wb: "wf_image ?b" using wa b by (rule pass_wf) (simp_all add: pass_dims)
  have c: "alphaOnly (data ?b) (data ?c)" using wb by (rule edgeOptimization_alphaOnly)
  have wc: "wf_image ?c" using wb c by (rule pass_wf) (simp_all add: pass_dims)
  have "alphaOnly (data img) (data ?c)"
    using a b c by (blast intro: alphaOnly_trans)
  with wc show ?thesis by (simp add: tf_postProcessSegmentation_def)
qed

section \<open>The weighted average stays between 0 and 255\<close>

lemma featherSums_bounds_gen:
  assumes "\<forall>(dx, dy) \<in> set win. 0 \<le> f dx dy \<and> f dx dy \<le> 255" "0 \<le> a" "a \<le> 255 * ws"
  shows "0 \<le> fst (fold (\<lambda>(dx, dy) (alphaSum, weightSum).
              let weight = gaussWeight dx dy sigma
              in (alphaSum + f dx dy * weight, weightSum + weight)) win (a, ws)) \<and>
         fst (fold (\<lambda>(dx, dy) (alphaSum, weightSum).
              let weight = gaussWeight dx dy sigma
              in (alphaSum + f dx dy * weight, weightSum + weight)) win (a, ws)) \<le>
         255 * snd (fold (\<lambda>(dx, dy) (alphaSum, weightSum).
              let weight = gaussWeight dx dy sigma
              in (alphaSum + f dx dy * weight, weightSum + weight)) win (a, ws))"
  using assms
proof (induction win arbitrary: a ws)
  case Nil
  then show ?case by simp
next
  case (Cons c win)
  obtain dx dy where c: "c = (dx, dy)" by (cases c)
  have f: "0 \<le> f dx dy" "f dx dy \<le> 255" using Cons.prems(1) c by auto
  have g: "0 < gaussWeight dx dy sigma" by (rule gaussWeight_pos)
  have "f dx dy * gaussWeight dx dy sigma \<le> 255 * gaussWeight dx dy sigma"
    using f g by (intro mult_right_mono) simp_all
  then have up: "a + f dx dy * gaussWeight dx dy sigma \<le> 255 * (ws + gaussWeight dx dy sigma)"
    using Cons.prems(3) by (simp add: algebra_simps)
  have lo: "0 \<le> a + f dx dy * gaussWeight dx dy sigma"
    using Cons.prems(2) f g by simp
  have rest: "\<forall>(dx, dy) \<in> set win. 0 \<le> f dx dy \<and> f dx dy \<le> 255"
    using Cons.prems(1) by simp
  show ?case
    using Cons.IH [OF rest lo up] by (simp add: c Let_def)
qed

lemma featherSums_quotient:
  assumes wf: "wf_image img" and mem: "(x, y) \<in> set (margin 2 (width img) (height img))"
  shows "0 \<le> fst (featherSums (data img) (width img) x y) /
               snd (featherSums (data img) (width img) x y) \<and>
         fst (featherSums (data img) (width img) x y) /
               snd (featherSums (data img) (width img) x y) \<le> 255"
proof -
  let ?S = "featherSums (data img) (width img) x y"
  have rd: "\<forall>(dx, dy) \<in> set (window 2).
      0 \<le> real_of_int (data img ! (pixelIndex (width img) (x + dx) (y + dy) + 3)) \<and>
      real_of_int (data img ! (pixelIndex (width img) (x + dx) (y + dy) + 3)) \<le> 255"
    using window_read [OF wf mem, of _ _ 2] by auto
  have b: "0 \<le> fst ?S \<and> fst ?S \<le> 255 * snd ?S"
    unfolding featherSums_def
    by (rule featherSums_bounds_gen [OF rd]) simp_all
  have w: "1 \<le> snd ?S" by (rule featherSums_weight)
  then have pos: "0 < snd ?S" by simp
  show ?thesis
    using b pos by (simp add: pos_divide_le_eq)
qed

lemma num_add_Some:
  "num_add a b = Some c \<longleftrightarrow> (\<exists>u v. a = Some u \<and> b = Some v \<and> c = u + v)"
  by (auto simp: num_add_def split: option.splits)

lemma num_mul_Some: "num_mul a k = Some c \<longleftrightarrow> (\<exists>u. a = Some u \<and> c = u * k)"
  by (auto simp: num_mul_def split: option.splits)

lemma readByte_Some:
  assumes "bytes d" "readByte d i = Some v"
  shows "0 \<le> v \<and> v \<le> 255"
proof -
  from assms(2) have i: "0 \<le> i" "i < int (length d)" and v: "v = real_of_int (d ! nat i)"
    by (auto simp: readByte_def split: if_splits)
  have "nat i < length d" using i by simp
  then show ?thesis using bytes_nth [OF assms(1)] v by simp
qed

lemma optimizeSums_bounds_gen:
  assumes "bytes d" "\<forall>a0. a = Some a0 \<longrightarrow> 0 \<le> a0 \<and> a0 \<le> 255 * ws"
  shows "\<forall>A. fst (fold (\<lambda>(dx, dy) (alphaSum, weightSum).
              let weight = gaussWeight dx dy sigma;
                  nIndex = g dx dy
              in (num_add alphaSum (num_mul (readByte d (nIndex + 3)) weight),
                  weightSum + weight)) win (a, ws)) = Some A \<longrightarrow>
         0 \<le> A \<and> A \<le> 255 * snd (fold (\<lambda>(dx, dy) (alphaSum, weightSum).
              let weight = gaussWeight dx dy sigma;
                  nIndex = g dx dy
              in (num_add alphaSum (num_mul (readByte d (nIndex + 3)) weight),
                  weightSum + weight)) win (a, ws))"
  using assms(2)
proof (induction win arbitrary: a ws)
  case Nil
  then show ?case by simp
next
  case (Cons c win)
  obtain dx dy where c: "c = (dx, dy)" by (cases c)
  let ?wt = "gaussWeight dx dy sigma"
  let ?a' = "num_add a (num_mul (readByte d (g dx dy + 3)) ?wt)"
  have g: "0 < ?wt" by (rule gaussWeight_pos)
  have step: "\<forall>a0. ?a' = Some a0 \<longrightarrow> 0 \<le> a0 \<and> a0 \<le> 255 * (ws + ?wt)"
  proof (intro allI impI)
    fix a0 assume "?a' = Some a0"
    then obtain u v where u: "a = Some u" and v: "readByte d (g dx dy + 3) = Some v"
      and a0: "a0 = u + v * ?wt"
      by (auto simp: num_add_Some num_mul_Some)
    have ub: "0 \<le> u" "u \<le> 255 * ws" using Cons.prems u by auto
    have vb: "0 \<le> v" "v \<le> 255" using readByte_Some [OF assms(1) v] by auto
    have m: "v * ?wt \<le> 255 * ?wt" using vb g by (intro mult_right_mono) simp_all
    have "0 \<le> v * ?wt" using vb g by simp
    then have "0 \<le> a0" using ub a0 by simp
    moreover have "a0 \<le> 255 * ws + 255 * ?wt" using ub m a0 by simp
    ultimately show "0 \<le> a0 \<and> a0 \<le> 255 * (ws + ?wt)"
      by (simp add: distrib_left)
  qed
  show ?case
    using Cons.IH [OF step] by (simp add: c Let_def)
qed

lemma optimizeSums_quotient:
  assumes wf: "wf_image img" and r: "0 \<le> r"
    and s: "fst (optimizeSums (data img) (width img) x y sigma r) = Some a"
  shows "0 \<le> a / snd (optimizeSums (data img) (width img) x y sigma r) \<and>
         a / snd (optimizeSums (data img) (width img) x y sigma r) \<le> 255"
proof -
  let ?S = "optimizeSums (data img) (width img) x y sigma r"
  have bts: "bytes (data img)" using wf by (simp add: wf_image_bytes)
  have "\<forall>A. fst ?S = Some A \<longrightarrow> 0 \<le> A \<and> A \<le> 255 * snd ?S"
    unfolding optimizeSums_def
    by (rule optimizeSums_bounds_gen [OF bts]) simp
  with s have b: "0 \<le> a \<and> a \<le> 255 * snd ?S" by simp
  have "1 \<le> snd ?S" using r by (rule optimizeSums_weight)
  then have pos: "0 < snd ?S" by simp
  show ?thesis using b pos by (simp add: pos_divide_le_eq)
qed

section \<open>The two post-processing chains\<close>

lemma window1: "window 1 = [(-1,-1),(0,-1),(1,-1),(-1,0),(0,0),(1,0),(-1,1),(0,1),(1,1)]"
  by (simp add: window_def upto_rec1 [of "-1" 1] upto_rec1 [of 0 1])

lemma margins3: "interior 3 3 = [(1, 1)]" "margin 2 3 3 = []" "margin 5 3 3 = []"
  "margin 0 3 3 = [(0,0),(1,0),(2,0),(0,1),(1,1),(2,1),(0,2),(1,2),(2,2)]"
  by (simp_all add: interior_def margin_def upto_rec1 [of 0 2] upto_rec1 [of 1 2])

lemma medianStep_apply:
  "medianStep originalData w (x, y) d =
     d[pixelIndex w x y + 3 :=
         sort (map (\<lambda>(dx, dy). originalData ! (pixelIndex w (x + dx) (y + dy) + 3)) (window 1)) ! 4]"
  by (simp add: medianStep_def Let_def)

lemma minStep_apply:
  "minStep tempData w (x, y) d =
     d[pixelIndex w x y + 3 :=
         fold (\<lambda>(dx, dy) m. min m (tempData ! (pixelIndex w (x + dx) (y + dy) + 3))) (window 1) 255]"
  by (simp add: minStep_def Let_def)

lemma maxStep_apply:
  "maxStep erodedData w (x, y) d =
     d[pixelIndex w x y + 3 :=
         fold (\<lambda>(dx, dy) m. max m (erodedData ! (pixelIndex w (x + dx) (y + dy) + 3))) (window 1) 0]"
  by (simp add: maxStep_def Let_def)

lemma scanStep_apply:
  "scanStep d w h (x, y) (visited, components) =
     (if nat (y * int w + x) \<notin> visited
      then (if d ! (nat (y * int w + x) * 4 + 3) > 128
            then (if length (snd (floodFill d visited x y w h)) > 0
                  then (fst (floodFill d visited x y w h),
                        components @ [snd (floodFill d visited x y w h)])
                  else (fst (floodFill d visited x y w h), components))
            else (visited, components))
      else (visited, components))"
  by (simp add: scanStep_def Let_def case_prod_beta)

lemma opaque3_dims: "width opaque3 = 3" "height opaque3 = 3"
  by (simp_all add: opaque3_def)

lemma opaque3_centre: "(data opaque3)[pixelIndex 3 1 1 + 3 := 255] = data opaque3"
  by (simp add: opaque3_def pixelIndex_def)

lemma opaque3_sorted:
  "sort (map (\<lambda>(dx, dy). data opaque3 ! (pixelIndex 3 (1 + dx) (1 + dy) + 3)) (window 1)) ! 4 = 255"
  by (simp add: window1 opaque3_def pixelIndex_def)

lemma opaque3_median: "medianFilter opaque3 = opaque3"
proof -
  have "fold (medianStep (data opaque3) 3) (interior 3 3) (data opaque3) = data opaque3"
    by (simp add: margins3 medianStep_apply opaque3_sorted opaque3_centre)
  then show ?thesis by (simp add: medianFilter_def opaque3_dims)
qed

lemma opaque3_min:
  "fold (\<lambda>(dx, dy) m. min m (data opaque3 ! (pixelIndex 3 (1 + dx) (1 + dy) + 3))) (window 1) 255 = 255"
  by (simp add: window1 opaque3_def pixelIndex_def)

lemma opaque3_max:
  "fold (\<lambda>(dx, dy) m. max m (data opaque3 ! (pixelIndex 3 (1 + dx) (1 + dy) + 3))) (window 1) 0 = 255"
  by (simp add: window1 opaque3_def pixelIndex_def)

lemma opaque3_morph: "morphologicalOperations opaque3 = opaque3"
proof -
  have e: "fold (minStep (data opaque3) 3) (interior 3 3) (data opaque3) = data opaque3"
    by (simp add: margins3 minStep_apply opaque3_min opaque3_centre)
  have m: "fold (maxStep (data opaque3) 3) (interior 3 3) (data opaque3) = data opaque3"
    by (simp add: margins3 maxStep_apply opaque3_max opaque3_centre)
  show ?thesis
    by (simp add: morphologicalOperations_def Let_def opaque3_dims e m)
qed

lemma opaque3_feather: "edgeFeathering opaque3 = opaque3"
  by (simp add: edgeFeathering_def opaque3_dims margins3)

lemma opaque3_bilateral: "bilateralFilter opaque3 = opaque3"
  by (simp add: bilateralFilter_def opaque3_dims margins3)

lemma opaque3_flood:
  "floodFill (data opaque3) {} 0 0 3 3 = ({8, 5, 2, 1, 4, 7, 6, 3, 0}, [0, 3, 6, 7, 4, 1, 2, 5, 8])"
  by (simp add: floodFill_def floodFill_loop.simps opaque3_def Let_def)

lemma opaque3_alpha: "data opaque3 ! 3 = 255"
  by (simp add: opaque3_def)

lemma opaque3_components: "findComponents opaque3 = [[0, 3, 6, 7, 4, 1, 2, 5, 8]]"
  unfolding findComponents_def
  by (simp add: opaque3_dims margins3 scanStep_apply opaque3_flood opaque3_alpha)

lemma opaque3_cca: "connectedComponentAnalysis opaque3 = cleared3"
  unfolding connectedComponentAnalysis_def
  apply (simp add: opaque3_components opaque3_dims minComponentSize_def clearComponent_def)
  apply (simp add: opaque3_def cleared3_def)
  done

lemma cleared3_optimize: "edgeOptimization cleared3 = cleared3"
proof -
  have "width cleared3 = 3" "height cleared3 = 3" by (simp_all add: cleared3_def)
  then show ?thesis by (simp add: edgeOptimization_def margins3)
qed

text \<open>
  The claim as worded (both tiers compute the same function on alpha) fails on the fully
  opaque 3 by 3 mask: the balanced chain returns it unchanged, while the precise chain,
  whose second stage prunes components of fewer than 50 pixels, clears every alpha byte.
\<close>

theorem postProcess_tiers_differ:
  "wf_image opaque3 \<and>
   mp_postProcessSegmentation opaque3 = opaque3 \<and>
   tf_postProcessSegmentation opaque3 = cleared3 \<and>
   alphaAt (data (mp_postProcessSegmentation opaque3)) 3 1 1 = 255 \<and>
   alphaAt (data (tf_postProcessSegmentation opaque3)) 3 1 1 = 0"
proof -
  have mp: "mp_postProcessSegmentation opaque3 = opaque3"
    by (simp add: mp_postProcessSegmentation_def opaque3_median opaque3_morph opaque3_feather)
  have tf: "tf_postProcessSegmentation opaque3 = cleared3"
    by (simp add: tf_postProcessSegmentation_def opaque3_bilateral opaque3_cca cleared3_optimize)
  have "wf_image opaque3" by (simp add: wf_image_def opaque3_def)
  moreover have "alphaAt (data opaque3) 3 1 1 = 255" "alphaAt (data cleared3) 3 1 1 = 0"
    by (simp_all add: alphaAt_def opaque3_def cleared3_def pixelIndex_def)
  ultimately show ?thesis by (simp add: mp tf)
qed

text \<open>
  Claim C2, as the code has it. The balanced tier runs median filter, morphological open
  and fixed-radius feathering, in this order, and prunes nothing; the precise tier runs
  bilateral filter, small-region pruning and adaptive feathering, in this order. The two
  chains are different functions. What they share: each maps a well-formed image to a
  well-formed image (alpha bytes in 0..255) of the same width and height whose colour
  bytes are those of the input.
\<close>

theorem postProcess_chains:
  assumes "wf_image img"
  shows "mp_postProcessSegmentation img =
           edgeFeathering (morphologicalOperations (medianFilter img)) \<and>
         tf_postProcessSegmentation img =
           edgeOptimization (connectedComponentAnalysis (bilateralFilter img)) \<and>
         wf_image (mp_postProcessSegmentation img) \<and>
         wf_image (tf_postProcessSegmentation img) \<and>
         width (mp_postProcessSegmentation img) = width img \<and>
         height (mp_postProcessSegmentation img) = height img \<and>
         width (tf_postProcessSegmentation img) = width img \<and>
         height (tf_postProcessSegmentation img) = height img \<and>
         sameColours (data (mp_postProcessSegmentation img)) (data img) \<and>
         sameColours (data (tf_postProcessSegmentation img)) (data img)"
proof -
  note mp = mp_postProcess_alphaOnly [OF assms]
  note tf = tf_postProcess_alphaOnly [OF assms]
  have dims: "width (mp_postProcessSegmentation img) = width img"
    "height (mp_postProcessSegmentation img) = height img"
    "width (tf_postProcessSegmentation img) = width img"
    "height (tf_postProcessSegmentation img) = height img"
    by (simp_all add: mp_postProcessSegmentation_def tf_postProcessSegmentation_def pass_dims)
  show ?thesis
    using mp tf dims
    by (simp add: alphaOnly_def mp_postProcessSegmentation_def tf_postProcessSegmentation_def)
qed

theorem postProcess_chains_witness:
  "wf_image edge5 \<and>
   wf_image (mp_postProcessSegmentation edge5) \<and>
   wf_image (tf_postProcessSegmentation edge5) \<and>
   width (mp_postProcessSegmentation edge5) = 5 \<and>
   height (tf_postProcessSegmentation edge5) = 5"
proof -
  have wf: "wf_image edge5" by (simp add: wf_image_def edge5_def)
  have d: "width edge5 = 5" "height edge5 = 5" by (simp_all add: edge5_def)
  note t = postProcess_chains [OF wf]
  from t have a: "wf_image (mp_postProcessSegmentation edge5)"
    and b: "wf_image (tf_postProcessSegmentation edge5)" by blast+
  from t have "width (mp_postProcessSegmentation edge5) = width edge5"
    and "height (tf_postProcessSegmentation edge5) = height edge5" by blast+
  with wf a b d show ?thesis by simp
qed

section \<open>Feathering never divides by zero\<close>

lemma featherStep_shape:
  "featherStep od w h c d =
     (if mp_isEdgePixel (fst c) (snd c) od w h
      then d[pixelIndex w (fst c) (snd c) + 3 :=
               storeQuotient (Some (fst (featherSums od w (fst c) (snd c))))
                 (snd (featherSums od w (fst c) (snd c)))]
      else d)"
  by (cases c) (simp add: featherStep_def Let_def case_prod_beta)

lemma optimizeStep_shape:
  "optimizeStep od w h c d =
     (if tf_isEdgePixel (fst c) (snd c) od w h
      then d[pixelIndex w (fst c) (snd c) + 3 :=
               storeQuotient
                 (fst (optimizeSums od w (fst c) (snd c)
                    (edgeSigma (calculateEdgeStrength (fst c) (snd c) od w h))
                    \<lceil>edgeSigma (calculateEdgeStrength (fst c) (snd c) od w h) * 2\<rceil>))
                 (snd (optimizeSums od w (fst c) (snd c)
                    (edgeSigma (calculateEdgeStrength (fst c) (snd c) od w h))
                    \<lceil>edgeSigma (calculateEdgeStrength (fst c) (snd c) od w h) * 2\<rceil>))]
      else d)"
  by (cases c) (simp add: optimizeStep_def Let_def case_prod_beta)

lemma storeQuotient_regular:
  "ws \<noteq> 0 \<Longrightarrow> storeQuotient a ws =
     (case a of None \<Rightarrow> 0 | Some v \<Rightarrow> toUint8Clamped (Some (v / ws)))"
  by (simp add: storeQuotient_def split: option.splits)

lemma edgeFeathering_pixel:
  assumes wf: "wf_image img" and mem: "(x, y) \<in> set (margin 2 (width img) (height img))"
  shows "data (edgeFeathering img) ! (pixelIndex (width img) x y + 3) =
     (if mp_isEdgePixel x y (data img) (width img) (height img)
      then toUint8Clamped (Some (fst (featherSums (data img) (width img) x y) /
                                 snd (featherSums (data img) (width img) x y)))
      else data img ! (pixelIndex (width img) x y + 3))"
proof -
  have len: "length (data img) = width img * height img * 4"
    using wf by (simp add: wf_image_def)
  have nz: "snd (featherSums (data img) (width img) x y) \<noteq> 0"
    using featherSums_weight [of "data img" "width img" x y] by simp
  have "fold (featherStep (data img) (width img) (height img))
          (margin 2 (width img) (height img)) (data img) ! (pixelIndex (width img) x y + 3) =
        (if mp_isEdgePixel (fst (x, y)) (snd (x, y)) (data img) (width img) (height img)
         then storeQuotient (Some (fst (featherSums (data img) (width img) (fst (x, y)) (snd (x, y)))))
                 (snd (featherSums (data img) (width img) (fst (x, y)) (snd (x, y))))
         else data img ! (pixelIndex (width img) x y + 3))"
    by (rule pointwise_pass [OF len mem]) (rule featherStep_shape)
  then show ?thesis
    by (simp add: edgeFeathering_def storeQuotient_regular [OF nz])
qed

lemma edgeOptimization_pixel:
  assumes wf: "wf_image img" and mem: "(x, y) \<in> set (margin 2 (width img) (height img))"
  shows "data (edgeOptimization img) ! (pixelIndex (width img) x y + 3) =
     (if tf_isEdgePixel x y (data img) (width img) (height img)
      then (case fst (optimizeSums (data img) (width img) x y
                   (edgeSigma (calculateEdgeStrength x y (data img) (width img) (height img)))
                   \<lceil>edgeSigma (calculateEdgeStrength x y (data img) (width img) (height img)) * 2\<rceil>) of
              None \<Rightarrow> 0
            | Some a \<Rightarrow> toUint8Clamped (Some (a /
                snd (optimizeSums (data img) (width img) x y
                   (edgeSigma (calculateEdgeStrength x y (data img) (width img) (height img)))
                   \<lceil>edgeSigma (calculateEdgeStrength x y (data img) (width img) (height img)) * 2\<rceil>))))
      else data img ! (pixelIndex (width img) x y + 3))"
proof -
  let ?s = "edgeSigma (calculateEdgeStrength x y (data img) (width img) (height img))"
  have len: "length (data img) = width img * height img * 4"
    using wf by (simp add: wf_image_def)
  have "0 \<le> \<lceil>?s * 2\<rceil>" using edgeSigma_radius [of "calculateEdgeStrength x y (data img) (width img) (height img)"] by simp
  then have nz: "snd (optimizeSums (data img) (width img) x y ?s \<lceil>?s * 2\<rceil>) \<noteq> 0"
    using optimizeSums_weight [of "\<lceil>?s * 2\<rceil>" "data img" "width img" x y ?s] by simp
  have "fold (optimizeStep (data img) (width img) (height img))
          (margin 2 (width img) (height img)) (data img) ! (pixelIndex (width img) x y + 3) =
        (if tf_isEdgePixel (fst (x, y)) (snd (x, y)) (data img) (width img) (height img)
         then storeQuotient
                 (fst (optimizeSums (data img) (width img) (fst (x, y)) (snd (x, y))
                    (edgeSigma (calculateEdgeStrength (fst (x, y)) (snd (x, y)) (data img) (width img) (height img)))
                    \<lceil>edgeSigma (calculateEdgeStrength (fst (x, y)) (snd (x, y)) (data img) (width img) (height img)) * 2\<rceil>))
                 (snd (optimizeSums (data img) (width img) (fst (x, y)) (snd (x, y))
                    (edgeSigma (calculateEdgeStrength (fst (x, y)) (snd (x, y)) (data img) (width img) (height img)))
                    \<lceil>edgeSigma (calculateEdgeStrength (fst (x, y)) (snd (x, y)) (data img) (width img) (height img)) * 2\<rceil>))
         else data img ! (pixelIndex (width img) x y + 3))"
    by (rule pointwise_pass [OF len mem]) (rule optimizeStep_shape)
  then show ?thesis
    by (simp add: edgeOptimization_def storeQuotient_regular [OF nz])
qed

text \<open>
  Claim C7. At every pixel where a feathering pass applies its Gaussian-weighted
  average (a pixel of the loop range that the pass's edge test accepts), the accumulated
  weight sum is at least 1, the weight of the centre pixel, so the division is by a
  non-zero number; the quotient lies between 0 and 255 whenever the alpha sum is a number;
  and the byte stored is that quotient, clamped and rounded. This holds for
  \<open>edgeFeathering\<close> of the balanced tier and for \<open>edgeOptimization\<close> of the precise
  tier, where an out-of-range read can make the alpha sum \<open>NaN\<close>, stored as 0. Every
  byte of either output lies in 0..255.
\<close>

theorem feathering_division_safe:
  assumes wf: "wf_image img" and mem: "(x, y) \<in> set (margin 2 (width img) (height img))"
  shows "(mp_isEdgePixel x y (data img) (width img) (height img) \<longrightarrow>
            1 \<le> snd (featherSums (data img) (width img) x y) \<and>
            0 \<le> fst (featherSums (data img) (width img) x y) /
                 snd (featherSums (data img) (width img) x y) \<and>
            fst (featherSums (data img) (width img) x y) /
                 snd (featherSums (data img) (width img) x y) \<le> 255 \<and>
            data (edgeFeathering img) ! (pixelIndex (width img) x y + 3) =
              toUint8Clamped (Some (fst (featherSums (data img) (width img) x y) /
                                    snd (featherSums (data img) (width img) x y)))) \<and>
         (tf_isEdgePixel x y (data img) (width img) (height img) \<longrightarrow>
            (let sigma = edgeSigma (calculateEdgeStrength x y (data img) (width img) (height img));
                 acc = optimizeSums (data img) (width img) x y sigma \<lceil>sigma * 2\<rceil>
             in 1 \<le> snd acc \<and>
                (\<forall>a. fst acc = Some a \<longrightarrow> 0 \<le> a / snd acc \<and> a / snd acc \<le> 255) \<and>
                data (edgeOptimization img) ! (pixelIndex (width img) x y + 3) =
                  (case fst acc of None \<Rightarrow> 0
                   | Some a \<Rightarrow> toUint8Clamped (Some (a / snd acc))))) \<and>
         (\<forall>v \<in> set (data (edgeFeathering img)). 0 \<le> v \<and> v \<le> 255) \<and>
         (\<forall>v \<in> set (data (edgeOptimization img)). 0 \<le> v \<and> v \<le> 255)"
proof -
  let ?s = "edgeSigma (calculateEdgeStrength x y (data img) (width img) (height img))"
  have r: "0 \<le> \<lceil>?s * 2\<rceil>"
    using edgeSigma_radius [of "calculateEdgeStrength x y (data img) (width img) (height img)"]
    by simp
  have a: "1 \<le> snd (featherSums (data img) (width img) x y)"
    by (rule featherSums_weight)
  note b = featherSums_quotient [OF wf mem]
  note c = edgeFeathering_pixel [OF wf mem]
  have d: "1 \<le> snd (optimizeSums (data img) (width img) x y ?s \<lceil>?s * 2\<rceil>)"
    using r by (rule optimizeSums_weight)
  have e: "\<forall>a. fst (optimizeSums (data img) (width img) x y ?s \<lceil>?s * 2\<rceil>) = Some a \<longrightarrow>
        0 \<le> a / snd (optimizeSums (data img) (width img) x y ?s \<lceil>?s * 2\<rceil>) \<and>
        a / snd (optimizeSums (data img) (width img) x y ?s \<lceil>?s * 2\<rceil>) \<le> 255"
    using optimizeSums_quotient [OF wf r] by blast
  note f = edgeOptimization_pixel [OF wf mem]
  have g: "\<forall>v \<in> set (data (edgeFeathering img)). 0 \<le> v \<and> v \<le> 255"
    using edgeFeathering_alphaOnly [OF wf] by (simp add: alphaOnly_def bytes_def)
  have h: "\<forall>v \<in> set (data (edgeOptimization img)). 0 \<le> v \<and> v \<le> 255"
    using edgeOptimization_alphaOnly [OF wf] by (simp add: alphaOnly_def bytes_def)
  show ?thesis
    unfolding Let_def using a b c d e f g h by simp
qed

lemma edge5_dims: "width edge5 = 5" "height edge5 = 5"
  by (simp_all add: edge5_def)

lemma edge5_wf: "wf_image edge5"
  by (simp add: wf_image_def edge5_def)

lemma edge5_mp: "mp_isEdgePixel 2 2 (data edge5) 5 5"
  by (simp add: mp_isEdgePixel_def Let_def inBounds_def pixelIndex_def edge5_def)

lemma edge5_tf: "tf_isEdgePixel 2 2 (data edge5) 5 5"
  by (simp add: tf_isEdgePixel_def around_def Let_def inBounds_def pixelIndex_def edge5_def)

theorem feathering_division_safe_witness:
  "wf_image edge5 \<and> (2, 2) \<in> set (margin 2 (width edge5) (height edge5)) \<and>
   mp_isEdgePixel 2 2 (data edge5) (width edge5) (height edge5) \<and>
   tf_isEdgePixel 2 2 (data edge5) (width edge5) (height edge5) \<and>
   1 \<le> snd (featherSums (data edge5) (width edge5) 2 2) \<and>
   fst (featherSums (data edge5) (width edge5) 2 2) /
     snd (featherSums (data edge5) (width edge5) 2 2) \<le> 255"
proof -
  have mem: "(2, 2) \<in> set (margin 2 (width edge5) (height edge5))"
    by (simp add: margin_mem edge5_dims)
  have mp: "mp_isEdgePixel 2 2 (data edge5) (width edge5) (height edge5)"
    by (simp add: edge5_dims edge5_mp)
  have tf: "tf_isEdgePixel 2 2 (data edge5) (width edge5) (height edge5)"
    by (simp add: edge5_dims edge5_tf)
  have "mp_isEdgePixel 2 2 (data edge5) (width edge5) (height edge5) \<longrightarrow>
            1 \<le> snd (featherSums (data edge5) (width edge5) 2 2) \<and>
            0 \<le> fst (featherSums (data edge5) (width edge5) 2 2) /
                 snd (featherSums (data edge5) (width edge5) 2 2) \<and>
            fst (featherSums (data edge5) (width edge5) 2 2) /
                 snd (featherSums (data edge5) (width edge5) 2 2) \<le> 255 \<and>
            data (edgeFeathering edge5) ! (pixelIndex (width edge5) 2 2 + 3) =
              toUint8Clamped (Some (fst (featherSums (data edge5) (width edge5) 2 2) /
                                    snd (featherSums (data edge5) (width edge5) 2 2)))"
    using feathering_division_safe [OF edge5_wf mem] by blast
  with mp tf mem edge5_wf show ?thesis by blast
qed

section \<open>Fallback chain\<close>

lemma canvas_process_result:
  "canvas_process wd f =
     (case imageOf wd f of
        Resolves img \<Rightarrow> Resolves (removeBackground img)
      | Rejects e \<Rightarrow> Rejects ProcessingFailed
      | Pending \<Rightarrow> Pending)"
  by (simp add: canvas_process_def andThen_def catchError_def split: promise.splits)

text \<open>An error thrown anywhere in the precise tier's attempt hands the file to the balanced tier.\<close>

lemma tf_process_rejected:
  assumes "andThen (tf_ensureLoaded wd isLoaded) (\<lambda>_.
           andThen (imageOf wd f) (\<lambda>img.
           andThen (performInference wd img) (\<lambda>segmentation.
           Resolves (tf_applySegmentation img segmentation)))) = Rejects e"
  shows "tf_process wd isLoaded f = mp_process wd f"
  using assms by (simp add: tf_process_def catchError_def)

text \<open>
  An error thrown anywhere in the balanced tier's attempt, its two timeouts included,
  hands the file to the fast tier.
\<close>

lemma mp_process_rejected:
  assumes "andThen (mp_ensureLoaded wd) (\<lambda>_.
           andThen (imageOf wd f) (\<lambda>img.
           andThen (performSegmentation wd img) (\<lambda>segmentationResult.
           Resolves (mp_applySegmentation img segmentationResult)))) = Rejects e"
  shows "mp_process wd f = canvas_process wd f"
  using assms by (simp add: mp_process_def catchError_def)

lemma performSegmentation_settles: "performSegmentation wd img \<noteq> Pending"
  by (simp add: performSegmentation_def withTimeout_def split: promise.splits)

lemma performInference_pending:
  "tfSegment wd img = Pending \<Longrightarrow> performInference wd img = Pending"
  by (simp add: performInference_def andThen_def)

text \<open>
  Both provider tiers failing by thrown errors, the result is the fast tier's: the
  composited image when the file decodes, and the fast tier's own error otherwise.
\<close>

lemma chain_on_errors:
  assumes "tfSegment wd img = Rejects e" "mpSegment wd img = Rejects e'"
    and "imageOf wd f = Resolves img"
    and "tfScript wd = Resolves ()" "tfModel wd = Resolves ()"
    and "mpScript wd = Resolves ()" "mpInit wd = Resolves ()"
  shows "tf_process wd isLoaded f = Resolves (removeBackground img)"
  using assms
  by (simp add: tf_process_def mp_process_def canvas_process_def tf_ensureLoaded_def
      mp_ensureLoaded_def performInference_def performSegmentation_def andThen_def
      catchError_def withTimeout_def)

text \<open>
  Claim C4 at a request whose precise-tier inference never answers. The precise tier
  awaits the model under no timer, so the request stays pending and nothing degrades;
  the balanced tier, on the same silence of its own model, rejects after its timeout and
  returns the fast tier's image.
\<close>

theorem precise_tier_pending:
  "tf_process silentWorld False photo = Pending \<and>
   mp_process silentWorld photo = Resolves (removeBackground opaque3)"
  by (simp add: tf_process_def mp_process_def canvas_process_def tf_ensureLoaded_def
      mp_ensureLoaded_def performInference_def performSegmentation_def andThen_def
      catchError_def withTimeout_def silentWorld_def)

section \<open>Complexity of a checkerboard and of a uniform image\<close>












































































section \<open>Small-region pruning\<close>

subsection \<open>Reachability that avoids the visited pixels\<close>

lemma avoiding_mono: "V \<subseteq> V' \<Longrightarrow> avoiding E V' \<subseteq> avoiding E V"
  by (auto simp: avoiding_def)

lemma avoiding_rtrancl_outside:
  "(a, b) \<in> (avoiding E V)\<^sup>* \<Longrightarrow> a \<notin> V \<Longrightarrow> b \<notin> V"
  by (induction rule: rtrancl_induct) (auto simp: avoiding_def)

lemma avoiding_step_subset:
  assumes "(a, q) \<in> (avoiding E V)\<^sup>*" "a \<in> insert p A" "a \<notin> V"
  shows "q = p \<or> q \<in> (avoiding E (insert p V))\<^sup>* `` ((E `` {p} \<union> A) - insert p V)"
  using assms(1)
proof (induction rule: rtrancl_induct)
  case base
  show ?case
  proof (cases "a = p")
    case True
    then show ?thesis by simp
  next
    case False
    then have "a \<in> (E `` {p} \<union> A) - insert p V" using assms(2,3) by auto
    then show ?thesis by blast
  qed
next
  case (step q' q)
  have e: "(q', q) \<in> E" "q' \<notin> V" "q \<notin> V" using step.hyps(2) by (auto simp: avoiding_def)
  show ?case
  proof (cases "q = p")
    case True
    then show ?thesis by simp
  next
    case qp: False
    show ?thesis
    proof (cases "q' = p")
      case True
      then have "q \<in> (E `` {p} \<union> A) - insert p V" using e qp by auto
      then show ?thesis by blast
    next
      case False
      then have "q' \<in> (avoiding E (insert p V))\<^sup>* `` ((E `` {p} \<union> A) - insert p V)"
        using step.IH by simp
      then obtain s where s: "s \<in> (E `` {p} \<union> A) - insert p V"
        "(s, q') \<in> (avoiding E (insert p V))\<^sup>*" by blast
      have "(q', q) \<in> avoiding E (insert p V)"
        using e qp False by (simp add: avoiding_def)
      with s(2) have "(s, q) \<in> (avoiding E (insert p V))\<^sup>*" by (rule rtrancl_into_rtrancl)
      with s(1) show ?thesis by blast
    qed
  qed
qed

lemma avoiding_step:
  assumes p: "p \<notin> V"
  shows "(avoiding E V)\<^sup>* `` (insert p A - V) =
         insert p ((avoiding E (insert p V))\<^sup>* `` ((E `` {p} \<union> A) - insert p V))"
proof (intro equalityI subsetI)
  fix q assume "q \<in> (avoiding E V)\<^sup>* `` (insert p A - V)"
  then obtain a where a: "a \<in> insert p A" "a \<notin> V" "(a, q) \<in> (avoiding E V)\<^sup>*" by blast
  from avoiding_step_subset [OF a(3) a(1) a(2)]
  show "q \<in> insert p ((avoiding E (insert p V))\<^sup>* `` ((E `` {p} \<union> A) - insert p V))"
    by blast
next
  fix q assume q: "q \<in> insert p ((avoiding E (insert p V))\<^sup>* `` ((E `` {p} \<union> A) - insert p V))"
  show "q \<in> (avoiding E V)\<^sup>* `` (insert p A - V)"
  proof (cases "q = p")
    case True
    then show ?thesis using p by blast
  next
    case False
    then obtain s where s: "s \<in> (E `` {p} \<union> A) - insert p V"
      "(s, q) \<in> (avoiding E (insert p V))\<^sup>*" using q by blast
    have m: "(avoiding E (insert p V))\<^sup>* \<subseteq> (avoiding E V)\<^sup>*"
      by (rule rtrancl_mono) (rule avoiding_mono, blast)
    then have sq: "(s, q) \<in> (avoiding E V)\<^sup>*" using s(2) by blast
    show ?thesis
    proof (cases "s \<in> A")
      case True
      then have "s \<in> insert p A - V" using s(1) by blast
      with sq show ?thesis by blast
    next
      case False
      then have "(p, s) \<in> E" "s \<notin> V" using s(1) by auto
      then have "(p, s) \<in> avoiding E V" using p by (simp add: avoiding_def)
      then have "(p, q) \<in> (avoiding E V)\<^sup>*" using sq by (rule converse_rtrancl_into_rtrancl)
      then show ?thesis using p by blast
    qed
  qed
qed

subsection \<open>Cells, pixel numbers and neighbours\<close>

lemma cellIndex_nat:
  "0 \<le> x \<Longrightarrow> 0 \<le> y \<Longrightarrow> cellIndex w (x, y) = nat y * w + nat x"
  by (simp add: cellIndex_def nat_add_distrib nat_mult_distrib)

lemma cellIndex_bound:
  assumes "0 \<le> x" "x < int w" "0 \<le> y" "y < int h"
  shows "cellIndex w (x, y) < w * h"
proof -
  have "nat y + 1 \<le> h" "nat x < w" using assms by linarith+
  then have "nat y * w + nat x < h * w"
    using mult_le_mono1 [of "nat y + 1" h w] by simp
  then show ?thesis using assms by (simp add: cellIndex_nat mult.commute)
qed

lemma cellIndex_mod_div:
  assumes "0 \<le> x" "x < int w" "0 \<le> y"
  shows "cellIndex w (x, y) mod w = nat x" "cellIndex w (x, y) div w = nat y"
  using assms by (simp_all add: cellIndex_nat)

lemma fgCell_foreground: "fgCell img c \<Longrightarrow> foreground img (cellIndex (width img) c)"
  by (cases c) (auto simp: fgCell_def foreground_def cellIndex_bound, simp add: cellIndex_def)

lemma seeds_Nil: "seeds img [] = {}"
  by (simp add: seeds_def)

lemma seeds_Cons:
  "seeds img (c # st) =
     (if fgCell img c then insert (cellIndex (width img) c) (seeds img st) else seeds img st)"
  by (auto simp: seeds_def)

lemma seeds_append: "seeds img (xs @ ys) = seeds img xs \<union> seeds img ys"
  by (auto simp: seeds_def)

lemma foreground_cell:
  assumes "foreground img q"
  shows "fgCell img (int (q mod width img), int (q div width img)) \<and>
         cellIndex (width img) (int (q mod width img), int (q div width img)) = q"
proof -
  let ?w = "width img" and ?h = "height img"
  have q: "q < ?w * ?h" and a: "data img ! (q * 4 + 3) > 128"
    using assms by (simp_all add: foreground_def)
  have w: "0 < ?w" using q by (cases "?w = 0") simp_all
  have ix: "cellIndex ?w (int (q mod ?w), int (q div ?w)) = q"
    by (simp add: cellIndex_nat)
  have "q div ?w < ?h" using q w by (simp add: less_mult_imp_div_less mult.commute)
  moreover have "q mod ?w < ?w" using w by simp
  moreover have "nat (int (q div ?w) * int ?w + int (q mod ?w)) = q"
    using ix by (simp add: cellIndex_def)
  ultimately have "fgCell img (int (q mod ?w), int (q div ?w))"
    using a by (simp add: fgCell_def)
  with ix show ?thesis by simp
qed

lemma neighbours_connection:
  assumes c: "fgCell img (x, y)"
  shows "seeds img [(x, y + 1), (x, y - 1), (x + 1, y), (x - 1, y)] =
         connection img `` {cellIndex (width img) (x, y)}"
proof (intro equalityI subsetI)
  let ?w = "width img"
  have xy: "0 \<le> x" "x < int ?w" "0 \<le> y" "y < int (height img)"
    using c by (simp_all add: fgCell_def)
  have md: "cellIndex ?w (x, y) mod ?w = nat x" "cellIndex ?w (x, y) div ?w = nat y"
    using xy by (simp_all add: cellIndex_mod_div)
  fix q assume "q \<in> seeds img [(x, y + 1), (x, y - 1), (x + 1, y), (x - 1, y)]"
  then obtain n where n: "n \<in> {(x, y + 1), (x, y - 1), (x + 1, y), (x - 1, y)}"
    "fgCell img n" "q = cellIndex ?w n"
    by (auto simp: seeds_def)
  obtain nx ny where nn: "n = (nx, ny)" by (cases n)
  have nr: "0 \<le> nx" "nx < int ?w" "0 \<le> ny" using n(2) by (simp_all add: nn fgCell_def)
  have nmd: "q mod ?w = nat nx" "q div ?w = nat ny"
    using nr by (simp_all add: n(3) nn cellIndex_mod_div)
  have "adjacent4 ?w (cellIndex ?w (x, y)) q"
    using n(1) nr xy unfolding adjacent4_def md nmd nn by auto
  then show "q \<in> connection img `` {cellIndex ?w (x, y)}"
    using fgCell_foreground [OF c] fgCell_foreground [OF n(2)] n(3)
    by (simp add: connection_def)
next
  let ?w = "width img"
  have xy: "0 \<le> x" "x < int ?w" "0 \<le> y" "y < int (height img)"
    using c by (simp_all add: fgCell_def)
  have md: "cellIndex ?w (x, y) mod ?w = nat x" "cellIndex ?w (x, y) div ?w = nat y"
    using xy by (simp_all add: cellIndex_mod_div)
  fix q assume "q \<in> connection img `` {cellIndex ?w (x, y)}"
  then have fq: "foreground img q" and adj: "adjacent4 ?w (cellIndex ?w (x, y)) q"
    by (simp_all add: connection_def)
  let ?n = "(int (q mod ?w), int (q div ?w))"
  have cell: "fgCell img ?n" "cellIndex ?w ?n = q"
    using foreground_cell [OF fq] by simp_all
  have "?n \<in> {(x, y + 1), (x, y - 1), (x + 1, y), (x - 1, y)}"
    using adj xy unfolding adjacent4_def md by auto
  then show "q \<in> seeds img [(x, y + 1), (x, y - 1), (x + 1, y), (x - 1, y)]"
    using cell unfolding seeds_def by force
qed

subsection \<open>The flood fill collects what can be reached\<close>

lemma floodFill_loop_skip:
  assumes "\<not> fgCell img (x, y) \<or> cellIndex (width img) (x, y) \<in> V"
  shows "floodFill_loop (data img) (width img) (height img) ((x, y) # stack) V C =
         floodFill_loop (data img) (width img) (height img) stack V C"
  using assms
  by (subst floodFill_loop.simps) (auto simp: fgCell_def cellIndex_def Let_def)

lemma floodFill_loop_visit:
  assumes "fgCell img (x, y)" "cellIndex (width img) (x, y) \<notin> V"
  shows "floodFill_loop (data img) (width img) (height img) ((x, y) # stack) V C =
         floodFill_loop (data img) (width img) (height img)
           ((x, y + 1) # (x, y - 1) # (x + 1, y) # (x - 1, y) # stack)
           (insert (cellIndex (width img) (x, y)) V) (C @ [cellIndex (width img) (x, y)])"
  using assms
  by (subst floodFill_loop.simps) (auto simp: fgCell_def cellIndex_def Let_def)

lemma floodFill_loop_result:
  assumes "d = data img" "w = width img" "h = height img"
  shows "\<exists>cs. floodFill_loop d w h stack V C = (V \<union> set cs, C @ cs) \<and> distinct cs \<and>
              set cs = (avoiding (connection img) V)\<^sup>* `` (seeds img stack - V)"
  using assms
proof (induction d w h stack V C rule: floodFill_loop.induct)
  case (1 d w h visited component)
  have "floodFill_loop d w h [] visited component = (visited \<union> set [], component @ [])"
    by (simp add: floodFill_loop.simps)
  moreover have "set [] = (avoiding (connection img) visited)\<^sup>* `` (seeds img [] - visited)"
    by (simp add: seeds_Nil)
  ultimately show ?case by (metis distinct.simps(1))
next
  case (2 d w h x y stack visited component)
  note eqs = "2.prems"
  let ?p = "cellIndex (width img) (x, y)"
  have idx: "?p = nat (y * int w + x)" by (simp add: cellIndex_def eqs)
  let ?E = "connection img"
  show ?case
  proof (cases "fgCell img (x, y) \<and> ?p \<notin> visited")
    case False
    then have skip: "floodFill_loop d w h ((x, y) # stack) visited component =
                     floodFill_loop d w h stack visited component"
      unfolding eqs by (intro floodFill_loop_skip) blast
    have "\<exists>cs. floodFill_loop d w h stack visited component = (visited \<union> set cs, component @ cs) \<and>
            distinct cs \<and> set cs = (avoiding ?E visited)\<^sup>* `` (seeds img stack - visited)"
    proof (cases "x < 0 \<or> int w \<le> x \<or> y < 0 \<or> int h \<le> y \<or> ?p \<in> visited")
      case True
      then show ?thesis using "2.IH"(1) [OF idx [symmetric, THEN sym]] eqs
        by (simp add: idx)
    next
      case inr: False
      then have "\<not> 128 < d ! (?p * 4 + 3)"
        using False by (auto simp: fgCell_def eqs idx)
      then show ?thesis using "2.IH"(2) [OF idx [symmetric, THEN sym]] inr eqs
        by (simp add: idx)
    qed
    moreover have "seeds img ((x, y) # stack) - visited = seeds img stack - visited"
      using False by (auto simp: seeds_Cons)
    ultimately show ?thesis by (simp add: skip)
  next
    case True
    then have fg: "fgCell img (x, y)" and nv: "?p \<notin> visited" by simp_all
    have visit: "floodFill_loop d w h ((x, y) # stack) visited component =
        floodFill_loop d w h ((x, y + 1) # (x, y - 1) # (x + 1, y) # (x - 1, y) # stack)
          (insert ?p visited) (component @ [?p])"
      unfolding eqs using fg nv by (rule floodFill_loop_visit)
    have c1: "\<not> (x < 0 \<or> int w \<le> x \<or> y < 0 \<or> int h \<le> y \<or> nat (y * int w + x) \<in> visited)"
      using fg nv by (auto simp: fgCell_def eqs idx)
    have c2: "\<not> d ! (nat (y * int w + x) * 4 + 3) \<le> 128"
      using fg by (auto simp: fgCell_def eqs)
    from "2.IH"(3) [OF refl c1 c2 eqs]
    obtain cs where cs:
      "floodFill_loop d w h ((x, y + 1) # (x, y - 1) # (x + 1, y) # (x - 1, y) # stack)
         (insert ?p visited) (component @ [?p]) =
       (insert ?p visited \<union> set cs, (component @ [?p]) @ cs)"
      "distinct cs"
      "set cs = (avoiding ?E (insert ?p visited))\<^sup>* ``
         (seeds img ((x, y + 1) # (x, y - 1) # (x + 1, y) # (x - 1, y) # stack) - insert ?p visited)"
      unfolding idx by blast
    have sd: "seeds img ((x, y + 1) # (x, y - 1) # (x + 1, y) # (x - 1, y) # stack) =
              ?E `` {?p} \<union> seeds img stack"
      using neighbours_connection [OF fg] seeds_append [of img "[(x, y + 1), (x, y - 1), (x + 1, y), (x - 1, y)]" stack]
      by simp
    have out: "\<forall>q \<in> set cs. q \<notin> insert ?p visited"
      using cs(3) avoiding_rtrancl_outside [of _ _ ?E "insert ?p visited"] by blast
    have d: "distinct (?p # cs)" using cs(2) out by auto
    have "set (?p # cs) = insert ?p ((avoiding ?E (insert ?p visited))\<^sup>* ``
              ((?E `` {?p} \<union> seeds img stack) - insert ?p visited))"
      using cs(3) sd by simp
    also have "\<dots> = (avoiding ?E visited)\<^sup>* `` (insert ?p (seeds img stack) - visited)"
      using avoiding_step [OF nv, of ?E "seeds img stack"] by simp
    also have "insert ?p (seeds img stack) = seeds img ((x, y) # stack)"
      using fg by (simp add: seeds_Cons)
    finally have s: "set (?p # cs) =
        (avoiding ?E visited)\<^sup>* `` (seeds img ((x, y) # stack) - visited)" .
    have "floodFill_loop d w h ((x, y) # stack) visited component =
          (visited \<union> set (?p # cs), component @ (?p # cs))"
      using visit cs(1) by simp
    with d s show ?thesis by blast
  qed
qed

lemma adjacent4_sym: "adjacent4 w p q \<Longrightarrow> adjacent4 w q p"
  by (auto simp: adjacent4_def)

lemma connection_sym: "sym (connection img)"
  by (auto simp: sym_def connection_def adjacent4_sym)

lemma connection_foreground:
  "(a, b) \<in> connection img \<Longrightarrow> foreground img a \<and> foreground img b"
  by (simp add: connection_def)

lemma component_self: "p \<in> component img p"
  by (simp add: component_def)

lemma component_foreground:
  assumes "q \<in> component img p" "foreground img p"
  shows "foreground img q"
proof -
  have "(p, q) \<in> (connection img)\<^sup>*" using assms(1) by (simp add: component_def)
  then show ?thesis
    using assms(2) by (induction rule: rtrancl_induct) (auto dest: connection_foreground)
qed

lemma component_eq:
  assumes "q \<in> component img p"
  shows "component img q = component img p"
proof -
  have pq: "(p, q) \<in> (connection img)\<^sup>*" using assms by (simp add: component_def)
  have "sym ((connection img)\<^sup>*)" using connection_sym by (rule sym_rtrancl)
  then have qp: "(q, p) \<in> (connection img)\<^sup>*" using pq by (simp add: sym_def)
  show ?thesis
    unfolding component_def using pq qp by (auto intro: rtrancl_trans)
qed

lemma component_bounded: "foreground img p \<Longrightarrow> component img p \<subseteq> {q. foreground img q}"
  using component_foreground by blast

lemma foreground_finite: "finite {q. foreground img q}"
proof -
  have "{q. foreground img q} \<subseteq> {..<width img * height img}"
    by (auto simp: foreground_def)
  then show ?thesis by (rule finite_subset) simp
qed

lemma unionOfComponents_add:
  assumes "unionOfComponents img V"
  shows "unionOfComponents img (V \<union> component img p)"
  unfolding unionOfComponents_def
proof (intro ballI, clarify)
  fix a b assume e: "(a, b) \<in> connection img"
  have e': "(b, a) \<in> connection img" using e connection_sym by (simp add: sym_def)
  have v: "a \<in> V \<longleftrightarrow> b \<in> V" using assms e by (auto simp: unionOfComponents_def)
  have "a \<in> component img p \<longleftrightarrow> b \<in> component img p"
    unfolding component_def using e e' by (auto intro: rtrancl_into_rtrancl)
  with v show "(a \<in> V \<union> component img p) = (b \<in> V \<union> component img p)" by blast
qed

lemma avoiding_closed:
  assumes cl: "unionOfComponents img V" and p: "p \<notin> V"
  shows "(avoiding (connection img) V)\<^sup>* `` {p} = component img p"
proof (intro equalityI subsetI)
  fix q assume "q \<in> (avoiding (connection img) V)\<^sup>* `` {p}"
  then have "(p, q) \<in> (avoiding (connection img) V)\<^sup>*" by simp
  moreover have "avoiding (connection img) V \<subseteq> connection img" by (auto simp: avoiding_def)
  ultimately have "(p, q) \<in> (connection img)\<^sup>*" using rtrancl_mono by blast
  then show "q \<in> component img p" by (simp add: component_def)
next
  fix q assume "q \<in> component img p"
  then have "(p, q) \<in> (connection img)\<^sup>*" by (simp add: component_def)
  then have "(p, q) \<in> (avoiding (connection img) V)\<^sup>* \<and> q \<notin> V"
  proof (induction rule: rtrancl_induct)
    case base
    then show ?case using p by simp
  next
    case (step a b)
    have "b \<notin> V" using cl step.hyps(2) step.IH by (auto simp: unionOfComponents_def)
    then have "(a, b) \<in> avoiding (connection img) V"
      using step.hyps(2) step.IH by (simp add: avoiding_def)
    then show ?case using step.IH \<open>b \<notin> V\<close> by (auto intro: rtrancl_into_rtrancl)
  qed
  then show "q \<in> (avoiding (connection img) V)\<^sup>* `` {p}" by simp
qed

lemma floodFill_component:
  assumes cl: "unionOfComponents img V" and fg: "fgCell img (x, y)"
    and nv: "cellIndex (width img) (x, y) \<notin> V"
  shows "\<exists>cs. floodFill (data img) V x y (width img) (height img) = (V \<union> set cs, cs) \<and>
              distinct cs \<and> set cs = component img (cellIndex (width img) (x, y))"
proof -
  let ?p = "cellIndex (width img) (x, y)"
  obtain cs where cs:
    "floodFill_loop (data img) (width img) (height img) [(x, y)] V [] = (V \<union> set cs, [] @ cs)"
    "distinct cs"
    "set cs = (avoiding (connection img) V)\<^sup>* `` (seeds img [(x, y)] - V)"
    using floodFill_loop_result [OF refl refl refl, of img "[(x, y)]" V "[]"] by blast
  have "seeds img [(x, y)] = {?p}" using fg by (simp add: seeds_Cons seeds_Nil)
  then have "seeds img [(x, y)] - V = {?p}" using nv by blast
  then have "set cs = component img ?p"
    using cs(3) avoiding_closed [OF cl nv] by simp
  with cs(1,2) show ?thesis by (simp add: floodFill_def)
qed

subsection \<open>The scan finds every component once\<close>

lemma scanStep_result:
  assumes inv: "scanInv img (V, comps)"
    and c: "0 \<le> x" "x < int (width img)" "0 \<le> y" "y < int (height img)"
  shows "\<exists>V' comps'. scanStep (data img) (width img) (height img) (x, y) (V, comps) = (V', comps') \<and>
           scanInv img (V', comps') \<and> V \<subseteq> V' \<and>
           (fgCell img (x, y) \<longrightarrow> cellIndex (width img) (x, y) \<in> V')"
proof -
  let ?p = "cellIndex (width img) (x, y)"
  have idx: "nat (y * int (width img) + x) = ?p" by (simp add: cellIndex_def)
  have cl: "unionOfComponents img V" and un: "V = \<Union> (set ` set comps)"
    and each: "\<forall>C \<in> set comps. distinct C \<and>
        (\<forall>p \<in> set C. foreground img p \<and> set C = component img p)"
    using inv unfolding scanInv_def prod.case by blast+
  show ?thesis
  proof (cases "?p \<notin> V \<and> data img ! (?p * 4 + 3) > 128")
    case False
    then have "scanStep (data img) (width img) (height img) (x, y) (V, comps) = (V, comps)"
      by (auto simp: scanStep_def Let_def idx)
    moreover have "fgCell img (x, y) \<longrightarrow> ?p \<in> V"
      using False by (auto simp: fgCell_def idx)
    ultimately show ?thesis using inv by blast
  next
    case True
    then have nv: "?p \<notin> V" and a: "data img ! (?p * 4 + 3) > 128" by simp_all
    have fg: "fgCell img (x, y)" using c a by (simp add: fgCell_def idx)
    obtain cs where cs:
      "floodFill (data img) V x y (width img) (height img) = (V \<union> set cs, cs)"
      "distinct cs" "set cs = component img ?p"
      using floodFill_component [OF cl fg nv] by blast
    have ne: "cs \<noteq> []" using cs(3) component_self [of ?p img] by auto
    have step: "scanStep (data img) (width img) (height img) (x, y) (V, comps) =
                (V \<union> set cs, comps @ [cs])"
      using nv a ne by (simp add: scanStep_def Let_def idx cs(1))
    have fp: "foreground img ?p" using fg by (rule fgCell_foreground)
    have new: "\<forall>q \<in> set cs. foreground img q \<and> set cs = component img q"
      using cs(3) component_foreground [OF _ fp] component_eq by auto
    have "scanInv img (V \<union> set cs, comps @ [cs])"
      unfolding scanInv_def prod.case
    proof (intro conjI)
      show "unionOfComponents img (V \<union> set cs)"
        unfolding cs(3) using cl by (rule unionOfComponents_add)
      show "V \<union> set cs = \<Union> (set ` set (comps @ [cs]))" using un by auto
      show "\<forall>C \<in> set (comps @ [cs]). distinct C \<and>
              (\<forall>p \<in> set C. foreground img p \<and> set C = component img p)"
        using each new cs(2) by auto
    qed
    moreover have "?p \<in> V \<union> set cs" using cs(3) component_self by auto
    ultimately show ?thesis using step by blast
  qed
qed

lemma scan_fold:
  assumes "scanInv img s" "\<forall>c \<in> set cells. c \<in> set (margin 0 (width img) (height img))"
  shows "scanInv img (fold (scanStep (data img) (width img) (height img)) cells s) \<and>
         fst s \<subseteq> fst (fold (scanStep (data img) (width img) (height img)) cells s) \<and>
         (\<forall>c \<in> set cells. fgCell img c \<longrightarrow>
            cellIndex (width img) c \<in> fst (fold (scanStep (data img) (width img) (height img)) cells s))"
  using assms
proof (induction cells arbitrary: s)
  case Nil
  then show ?case by simp
next
  case (Cons c cells)
  obtain x y where cxy: "c = (x, y)" by (cases c)
  obtain V comps where s: "s = (V, comps)" by (cases s)
  have r: "0 \<le> x" "x < int (width img)" "0 \<le> y" "y < int (height img)"
    using Cons.prems(2) by (auto simp: cxy margin_mem)
  obtain V' comps' where st:
    "scanStep (data img) (width img) (height img) (x, y) (V, comps) = (V', comps')"
    "scanInv img (V', comps')" "V \<subseteq> V'"
    "fgCell img (x, y) \<longrightarrow> cellIndex (width img) (x, y) \<in> V'"
    using scanStep_result [OF Cons.prems(1) [unfolded s] r] by blast
  let ?f = "fold (scanStep (data img) (width img) (height img)) cells (V', comps')"
  have ih: "scanInv img ?f" "V' \<subseteq> fst ?f"
    "\<forall>c \<in> set cells. fgCell img c \<longrightarrow> cellIndex (width img) c \<in> fst ?f"
    using Cons.IH [OF st(2)] Cons.prems(2) by simp_all
  have f: "fold (scanStep (data img) (width img) (height img)) (c # cells) s = ?f"
    by (simp add: cxy s st(1))
  show ?case
    unfolding f using ih st(3,4) by (auto simp: s cxy)
qed

lemma findComponents_correct:
  shows "(\<forall>C \<in> set (findComponents img). distinct C \<and>
            (\<forall>p \<in> set C. foreground img p \<and> set C = component img p)) \<and>
         (\<forall>p. foreground img p \<longrightarrow> (\<exists>C \<in> set (findComponents img). p \<in> set C))"
proof -
  let ?cells = "margin 0 (width img) (height img)"
  let ?f = "fold (scanStep (data img) (width img) (height img)) ?cells ({}, [])"
  have "scanInv img ({}, [])" by (simp add: scanInv_def unionOfComponents_def)
  then have inv: "scanInv img ?f"
    and all: "\<forall>c \<in> set ?cells. fgCell img c \<longrightarrow> cellIndex (width img) c \<in> fst ?f"
    using scan_fold [of img "({}, [])" ?cells] by simp_all
  obtain V comps where f: "?f = (V, comps)" by (cases ?f)
  have comps: "findComponents img = comps" by (simp add: findComponents_def f)
  have un: "V = \<Union> (set ` set comps)"
    and each: "\<forall>C \<in> set comps. distinct C \<and>
        (\<forall>p \<in> set C. foreground img p \<and> set C = component img p)"
    using inv unfolding f scanInv_def prod.case by blast+
  have "\<exists>C \<in> set comps. p \<in> set C" if "foreground img p" for p
  proof -
    let ?c = "(int (p mod width img), int (p div width img))"
    have cell: "fgCell img ?c" "cellIndex (width img) ?c = p"
      using foreground_cell [OF that] by simp_all
    have "?c \<in> set ?cells" using cell(1) by (simp add: margin_mem fgCell_def)
    then have "p \<in> V" using all cell by (auto simp: f)
    then show ?thesis using un by auto
  qed
  with each show ?thesis by (simp add: comps)
qed

lemma clearComponent_length: "length (clearComponent C d) = length d"
  by (simp add: clearComponent_def fold_length)

lemma clearComponent_nth:
  assumes "p * 4 + 3 < length d"
  shows "clearComponent C d ! (p * 4 + 3) = (if p \<in> set C then 0 else d ! (p * 4 + 3))"
  using assms
proof (induction C arbitrary: d)
  case Nil
  then show ?case by (simp add: clearComponent_def)
next
  case (Cons q C)
  have unf: "clearComponent (q # C) d = clearComponent C (d[q * 4 + 3 := 0])"
    by (simp add: clearComponent_def)
  have len: "p * 4 + 3 < length (d[q * 4 + 3 := 0])" using Cons.prems by simp
  have upd: "d[q * 4 + 3 := 0] ! (p * 4 + 3) = (if p = q then 0 else d ! (p * 4 + 3))"
    using Cons.prems by (simp add: nth_list_update)
  have "clearComponent (q # C) d ! (p * 4 + 3) =
        (if p \<in> set C then 0 else d[q * 4 + 3 := 0] ! (p * 4 + 3))"
    unfolding unf by (rule Cons.IH [OF len])
  then show ?case unfolding upd by simp
qed

lemma prune_nth:
  assumes "p * 4 + 3 < length d"
  shows "fold (\<lambda>component d. if real (length component) < m
                               then clearComponent component d else d) comps d ! (p * 4 + 3) =
         (if \<exists>C \<in> set comps. real (length C) < m \<and> p \<in> set C then 0 else d ! (p * 4 + 3))"
  using assms
proof (induction comps arbitrary: d)
  case Nil
  then show ?case by simp
next
  case (Cons C comps)
  let ?d = "if real (length C) < m then clearComponent C d else d"
  have len: "p * 4 + 3 < length ?d"
    using Cons.prems by (simp add: clearComponent_length)
  have v: "?d ! (p * 4 + 3) = (if real (length C) < m \<and> p \<in> set C then 0 else d ! (p * 4 + 3))"
    using clearComponent_nth [OF Cons.prems] by simp
  show ?case
    using Cons.IH [OF len] v by auto
qed

subsection \<open>Pruning\<close>

lemma connectedComponentAnalysis_alpha:
  assumes wf: "wf_image img" and p: "p < width img * height img"
  shows "data (connectedComponentAnalysis img) ! (p * 4 + 3) =
           (if foreground img p \<and>
               real (card (component img p)) < minComponentSize (width img) (height img)
            then 0 else data img ! (p * 4 + 3))"
proof -
  let ?m = "minComponentSize (width img) (height img)"
  have len: "p * 4 + 3 < length (data img)"
    using wf p by (simp add: wf_image_def)
  note fc = findComponents_correct [of img]
  have each: "\<And>C q. C \<in> set (findComponents img) \<Longrightarrow> q \<in> set C \<Longrightarrow>
      foreground img q \<and> real (length C) = real (card (component img q))"
  proof -
    fix C q assume C: "C \<in> set (findComponents img)" and q: "q \<in> set C"
    have d: "distinct C" and s: "foreground img q" "set C = component img q"
      using fc C q by blast+
    have "length C = card (set C)" using d by (simp add: distinct_card)
    with s show "foreground img q \<and> real (length C) = real (card (component img q))" by simp
  qed
  have "(\<exists>C \<in> set (findComponents img). real (length C) < ?m \<and> p \<in> set C) \<longleftrightarrow>
        (foreground img p \<and> real (card (component img p)) < ?m)"
  proof
    assume "\<exists>C \<in> set (findComponents img). real (length C) < ?m \<and> p \<in> set C"
    then obtain C where C: "C \<in> set (findComponents img)" "real (length C) < ?m" "p \<in> set C"
      by blast
    with each [OF C(1) C(3)] show "foreground img p \<and> real (card (component img p)) < ?m"
      by simp
  next
    assume a: "foreground img p \<and> real (card (component img p)) < ?m"
    then obtain C where C: "C \<in> set (findComponents img)" "p \<in> set C"
      using fc by blast
    have "real (length C) < ?m" using each [OF C] a by simp
    with C show "\<exists>C \<in> set (findComponents img). real (length C) < ?m \<and> p \<in> set C"
      by blast
  qed
  then show ?thesis
    unfolding connectedComponentAnalysis_def Let_def
    using prune_nth [OF len, of ?m "findComponents img"] by simp
qed

text \<open>
  Claim C6. On a well-formed mask, the pruning stage gives alpha 0 to a pixel exactly
  when the pixel is foreground (alpha above 128) and its 4-connected component of
  foreground pixels has fewer than max(50, width * height / 1000) pixels; every other
  alpha byte and every colour byte is left as it was. So when the foreground is a single
  component below that size, no foreground pixel remains.
\<close>

theorem connectedComponentAnalysis_prunes:
  assumes wf: "wf_image img" and p: "p < width img * height img"
  shows "data (connectedComponentAnalysis img) ! (p * 4 + 3) =
           (if foreground img p \<and>
               real (card (component img p)) < max 50 (real (width img * height img) / 1000)
            then 0 else data img ! (p * 4 + 3)) \<and>
         sameColours (data (connectedComponentAnalysis img)) (data img) \<and>
         ((\<forall>q. foreground img q \<longrightarrow> q \<in> component img p) \<and>
          real (card (component img p)) < max 50 (real (width img * height img) / 1000) \<longrightarrow>
            (\<forall>q < width img * height img. \<not> foreground (connectedComponentAnalysis img) q))"
proof -
  let ?m = "max 50 (real (width img * height img) / 1000)"
  let ?out = "connectedComponentAnalysis img"
  have m: "minComponentSize (width img) (height img) = ?m" by (simp add: minComponentSize_def)
  note alpha = connectedComponentAnalysis_alpha [OF wf, unfolded m]
  have sc: "sameColours (data ?out) (data img)"
    using connectedComponentAnalysis_alphaOnly [OF wf] by (simp add: alphaOnly_def)
  have blob: "\<not> foreground ?out q"
    if all: "\<forall>q. foreground img q \<longrightarrow> q \<in> component img p"
      and small: "real (card (component img p)) < ?m" and q: "q < width img * height img" for q
  proof (cases "foreground img q")
    case True
    then have "q \<in> component img p" using all by blast
    then have "component img q = component img p" by (rule component_eq)
    then have "data ?out ! (q * 4 + 3) = 0" using alpha [OF q] True small by simp
    then show ?thesis by (simp add: foreground_def)
  next
    case False
    then have "data ?out ! (q * 4 + 3) = data img ! (q * 4 + 3)" using alpha [OF q] by simp
    then show ?thesis using False q by (simp add: foreground_def pass_dims)
  qed
  show ?thesis using alpha [OF p] sc blob by blast
qed

lemma speck_wf: "wf_image speck"
  by (simp add: wf_image_def speck_def)

theorem connectedComponentAnalysis_prunes_witness:
  "wf_image speck \<and> 0 < width speck * height speck \<and> foreground speck 0 \<and>
   data (connectedComponentAnalysis speck) ! (0 * 4 + 3) = 0"
proof -
  have p: "0 < width speck * height speck" by (simp add: speck_def)
  have fg: "foreground speck 0" by (simp add: foreground_def speck_def)
  have "component speck 0 \<subseteq> {q. foreground speck q}" using fg by (rule component_bounded)
  also have "\<dots> \<subseteq> {..<2}" by (auto simp: foreground_def speck_def)
  finally have "card (component speck 0) \<le> card {..<2::nat}" by (intro card_mono) simp_all
  then have small: "real (card (component speck 0)) < max 50 (real (width speck * height speck) / 1000)"
    by simp
  have "data (connectedComponentAnalysis speck) ! (0 * 4 + 3) =
           (if foreground speck 0 \<and>
               real (card (component speck 0)) < max 50 (real (width speck * height speck) / 1000)
            then 0 else data speck ! (0 * 4 + 3))"
    using connectedComponentAnalysis_prunes [OF speck_wf p] by blast
  with fg small have "data (connectedComponentAnalysis speck) ! (0 * 4 + 3) = 0" by simp
  with speck_wf p fg show ?thesis by blast
qed

end
